theory Spec2Isabelle
  imports Complex_Main "HOL-Library.AList"
begin

section \<open>The notebook's functions, as written\<close>

text \<open>
  The program is one Python notebook, \<^verbatim>\<open>notebooks/noughts_and_crosses.ipynb\<close>.
  A game state is a Python \<^verbatim>\<open>str\<close> of the characters 0, 1 and 2; it is modelled
  as a \<^typ>\<open>string\<close>. A player is a \<^verbatim>\<open>str\<close> too (\<^verbatim>\<open>"1"\<close> or \<^verbatim>\<open>"2"\<close>),
  and \<^verbatim>\<open>game_state[i] == player\<close> compares the one-character string at index
  \<open>i\<close> with it. Every Python exception the code can raise is a value of
  \<open>error\<close>, and a function that can raise returns \<open>error + 'a\<close>.
\<close>

datatype error = IndexError | KeyError | ZeroDivisionError | UnboundLocalError

text \<open>\<^verbatim>\<open>game_state[i]\<close> for a literal index \<open>i \<ge> 0\<close>.\<close>

definition getitem :: "string \<Rightarrow> nat \<Rightarrow> error + char" where
  "getitem game_state i =
     (if i < length game_state then Inr (game_state ! i) else Inl IndexError)"

text \<open>\<^verbatim>\<open>game[-1]\<close>.\<close>

definition last_item :: "'a list \<Rightarrow> error + 'a" where
  "last_item game = (if game = [] then Inl IndexError else Inr (last game))"

subsection \<open>\<^verbatim>\<open>winning_state\<close>\<close>

text \<open>
  One test of the source, \<^verbatim>\<open>game_state[i] == game_state[j] == game_state[k] == player\<close>.
  Python evaluates a chained comparison from the left and stops at the first
  comparison that is false, so \<^verbatim>\<open>game_state[k]\<close> is read only when the first
  two cells are equal.
\<close>

definition line_check :: "string \<Rightarrow> nat \<Rightarrow> nat \<Rightarrow> nat \<Rightarrow> string \<Rightarrow> error + bool" where
  "line_check game_state i j k player =
     (case getitem game_state i of Inl e \<Rightarrow> Inl e | Inr a \<Rightarrow>
     (case getitem game_state j of Inl e \<Rightarrow> Inl e | Inr b \<Rightarrow>
        if a \<noteq> b then Inr False
        else (case getitem game_state k of Inl e \<Rightarrow> Inl e | Inr c \<Rightarrow>
                if b \<noteq> c then Inr False else Inr ([c] = player))))"

text \<open>The eight tests in the order of the source: rows, columns, diagonals.\<close>

definition winning_lines :: "(nat \<times> nat \<times> nat) list" where
  "winning_lines =
     [(0, 1, 2), (3, 4, 5), (6, 7, 8),
      (0, 3, 6), (1, 4, 7), (2, 5, 8),
      (0, 4, 8), (2, 4, 6)]"

fun check_lines :: "string \<Rightarrow> string \<Rightarrow> (nat \<times> nat \<times> nat) list \<Rightarrow> error + bool" where
  "check_lines game_state player [] = Inr False"
| "check_lines game_state player ((i, j, k) # rest) =
     (case line_check game_state i j k player of
        Inl e \<Rightarrow> Inl e
      | Inr True \<Rightarrow> Inr True
      | Inr False \<Rightarrow> check_lines game_state player rest)"

definition winning_state :: "string \<Rightarrow> string \<Rightarrow> error + bool" where
  "winning_state game_state player = check_lines game_state player winning_lines"

subsection \<open>\<^verbatim>\<open>current_player\<close> and \<^verbatim>\<open>get_possible_moves\<close>\<close>

definition current_player :: "string \<Rightarrow> string" where
  "current_player game_state =
     (if count_list game_state CHR ''1'' \<le> count_list game_state CHR ''2''
      then ''1'' else ''2'')"

text \<open>
  The loop \<^verbatim>\<open>for i in range(9)\<close>, with the list built so far as accumulator;
  \<^verbatim>\<open>game_state[:i]\<close> is \<open>take i\<close> and \<^verbatim>\<open>game_state[i+1:]\<close> is \<open>drop (i + 1)\<close>.
\<close>

fun moves_loop :: "string \<Rightarrow> nat list \<Rightarrow> string list \<Rightarrow> error + string list" where
  "moves_loop game_state [] possible_moves = Inr possible_moves"
| "moves_loop game_state (i # rest) possible_moves =
     (case getitem game_state i of
        Inl e \<Rightarrow> Inl e
      | Inr c \<Rightarrow>
          if [c] = ''0''
          then moves_loop game_state rest
                 (possible_moves @
                  [take i game_state @ current_player game_state @ drop (i + 1) game_state])
          else moves_loop game_state rest possible_moves)"

definition get_possible_moves :: "string \<Rightarrow> error + string list" where
  "get_possible_moves game_state = moves_loop game_state [0..<9] []"

subsection \<open>Phase 1: playing all possible games\<close>

text \<open>
  The inner loop \<^verbatim>\<open>for game in possible_games\<close> runs over the list object that
  \<^verbatim>\<open>possible_games\<close> names when the loop starts. The assignment
  \<^verbatim>\<open>possible_games = new_possible_games\<close> stands inside that loop, after the
  loop over the moves, so it is skipped by \<^verbatim>\<open>continue\<close>; once executed, both
  names denote the same list object and later appends show through both. The
  state of the inner loop is therefore the new list and whether the name was
  rebound.
\<close>

record round_state =
  new_possible_games :: "string list list"
  rebound :: bool

fun round_loop :: "string list list \<Rightarrow> round_state \<Rightarrow> error + round_state" where
  "round_loop [] st = Inr st"
| "round_loop (game # rest) st =
     (case last_item game of Inl e \<Rightarrow> Inl e | Inr previous_game_state \<Rightarrow>
     (case winning_state previous_game_state ''1'' of Inl e \<Rightarrow> Inl e | Inr w1 \<Rightarrow>
     (case (if w1 then Inr True else winning_state previous_game_state ''2'') of
        Inl e \<Rightarrow> Inl e
      | Inr True \<Rightarrow>
          round_loop rest (st\<lparr>new_possible_games := new_possible_games st @ [game]\<rparr>)
      | Inr False \<Rightarrow>
          (case get_possible_moves previous_game_state of
             Inl e \<Rightarrow> Inl e
           | Inr ms \<Rightarrow>
               round_loop rest
                 \<lparr>new_possible_games = new_possible_games st @ map (\<lambda>move. game @ [move]) ms,
                  rebound = True\<rparr>))))"

fun game_rounds :: "nat \<Rightarrow> string list list \<Rightarrow> error + string list list" where
  "game_rounds 0 possible_games = Inr possible_games"
| "game_rounds (Suc n) possible_games =
     (case round_loop possible_games \<lparr>new_possible_games = [], rebound = False\<rparr> of
        Inl e \<Rightarrow> Inl e
      | Inr st \<Rightarrow>
          game_rounds n (if rebound st then new_possible_games st else possible_games))"

definition possible_games :: "error + string list list" where
  "possible_games = game_rounds 9 [[''000000000'']]"

subsection \<open>\<^verbatim>\<open>game_outcome\<close> and the three totals\<close>

definition game_outcome :: "string list \<Rightarrow> error + string" where
  "game_outcome game_path =
     (case last_item game_path of Inl e \<Rightarrow> Inl e | Inr final_game_state \<Rightarrow>
     (case winning_state final_game_state ''1'' of
        Inl e \<Rightarrow> Inl e
      | Inr True \<Rightarrow> Inr ''player 1 wins''
      | Inr False \<Rightarrow>
          (case winning_state final_game_state ''2'' of
             Inl e \<Rightarrow> Inl e
           | Inr True \<Rightarrow> Inr ''player 2 wins''
           | Inr False \<Rightarrow> Inr ''draw'')))"

text \<open>\<^verbatim>\<open>sum(game_outcome(game) == label for game in games)\<close>.\<close>

fun num_outcomes :: "string \<Rightarrow> string list list \<Rightarrow> error + nat" where
  "num_outcomes label [] = Inr 0"
| "num_outcomes label (game # rest) =
     (case game_outcome game of Inl e \<Rightarrow> Inl e | Inr r \<Rightarrow>
     (case num_outcomes label rest of Inl e \<Rightarrow> Inl e | Inr n \<Rightarrow>
        Inr ((if r = label then 1 else 0) + n)))"

subsection \<open>Phase 2: counting wins and draws for every state of every game\<close>

text \<open>
  A \<^verbatim>\<open>Counter\<close> reads 0 at a key it does not hold, so it is a function into
  \<^typ>\<open>nat\<close>. The Python \<^verbatim>\<open>set\<close> \<^verbatim>\<open>interim_states\<close> is kept as the list of its
  elements in the order they were first added; the two loops over it write one
  dictionary entry per element, under that element as key.
\<close>

record counters =
  p1_win_counter :: "string \<Rightarrow> nat"
  p2_win_counter :: "string \<Rightarrow> nat"
  draw_counter :: "string \<Rightarrow> nat"
  interim_states :: "string list"

definition counter_update :: "string \<Rightarrow> (string \<Rightarrow> nat) \<Rightarrow> string \<Rightarrow> nat" where
  "counter_update game_state c = c(game_state := c game_state + 1)"

definition set_add :: "string \<Rightarrow> string list \<Rightarrow> string list" where
  "set_add game_state xs = (if game_state \<in> set xs then xs else xs @ [game_state])"

definition no_counts :: counters where
  "no_counts =
     \<lparr>p1_win_counter = (\<lambda>_. 0), p2_win_counter = (\<lambda>_. 0), draw_counter = (\<lambda>_. 0),
      interim_states = []\<rparr>"

fun count_game :: "string \<Rightarrow> string list \<Rightarrow> counters \<Rightarrow> error + counters" where
  "count_game final_game_state [] cs = Inr cs"
| "count_game final_game_state (game_state # rest) cs =
     (case winning_state final_game_state ''1'' of
        Inl e \<Rightarrow> Inl e
      | Inr True \<Rightarrow>
          count_game final_game_state rest
            (cs\<lparr>interim_states := set_add game_state (interim_states cs),
                p1_win_counter := counter_update game_state (p1_win_counter cs)\<rparr>)
      | Inr False \<Rightarrow>
          (case winning_state final_game_state ''2'' of
             Inl e \<Rightarrow> Inl e
           | Inr True \<Rightarrow>
               count_game final_game_state rest
                 (cs\<lparr>interim_states := set_add game_state (interim_states cs),
                     p2_win_counter := counter_update game_state (p2_win_counter cs)\<rparr>)
           | Inr False \<Rightarrow>
               count_game final_game_state rest
                 (cs\<lparr>interim_states := set_add game_state (interim_states cs),
                     draw_counter := counter_update game_state (draw_counter cs)\<rparr>)))"

fun count_games :: "string list list \<Rightarrow> counters \<Rightarrow> error + counters" where
  "count_games [] cs = Inr cs"
| "count_games (game # rest) cs =
     (case last_item game of Inl e \<Rightarrow> Inl e | Inr final_game_state \<Rightarrow>
     (case count_game final_game_state game cs of
        Inl e \<Rightarrow> Inl e
      | Inr cs' \<Rightarrow> count_games rest cs'))"

subsection \<open>Outcome probabilities\<close>

text \<open>
  \<^verbatim>\<open>round(n / d, 5)\<close> on Python ints: a float division, then rounding to five
  decimals.

  The division \<^verbatim>\<open>n / d\<close> of two ints returns the double nearest to the exact
  quotient, a tie going to the even mantissa. \<open>to_double n d\<close> is the exact value
  of that double: the quotient is scaled by a power of two into \<open>[2^52, 2^53)\<close>
  (\<open>shift_up\<close> counts the doublings of a quotient below one, \<open>shift_down\<close> the
  halvings of a quotient from two on), rounded to an integer mantissa, and scaled
  back. (Doubles have exponents between \<open>-1022\<close> and \<open>1023\<close>; the counts of this
  program are far inside that range, so neither overflow nor subnormal numbers
  are modelled.)

  \<^verbatim>\<open>round(x, 5)\<close> on a float rounds the exact value of the double \<open>x\<close> to five
  decimals, a tie going to the even last digit, and returns the double nearest to
  that decimal. \<open>round5\<close> returns the decimal itself, as a rational: distinct
  decimals with five places have distinct nearest doubles, in the same order, so
  comparing and sorting the results is the same.
\<close>

definition round_half_even :: "rat \<Rightarrow> int" where
  "round_half_even x =
     (let f = \<lfloor>x\<rfloor>; r = x - of_int f
      in if r < 1 / 2 then f else if 1 / 2 < r then f + 1 else if even f then f else f + 1)"

function shift_up :: "nat \<Rightarrow> nat \<Rightarrow> nat" where
  "shift_up n d = (if n = 0 \<or> d \<le> n then 0 else Suc (shift_up (2 * n) d))"
  by pat_completeness auto
termination by (relation "measure (\<lambda>(n, d). d - n)") auto

function shift_down :: "nat \<Rightarrow> nat \<Rightarrow> nat" where
  "shift_down n d = (if d = 0 \<or> n < 2 * d then 0 else Suc (shift_down n (2 * d)))"
  by pat_completeness auto
termination by (relation "measure (\<lambda>(n, d). n - d)") auto

declare shift_up.simps [simp del] shift_down.simps [simp del]

definition to_double :: "nat \<Rightarrow> nat \<Rightarrow> rat" where
  "to_double n d =
     (let u = shift_up n d; w = shift_down n d
      in of_int (round_half_even (of_nat (n * 2 ^ (52 + u)) / of_nat (d * 2 ^ w)))
           * 2 ^ w / 2 ^ (52 + u))"

definition round5 :: "rat \<Rightarrow> rat" where
  "round5 x = of_int (round_half_even (x * 100000)) / 100000"

definition py_div :: "nat \<Rightarrow> nat \<Rightarrow> error + rat" where
  "py_div n d = (if d = 0 then Inl ZeroDivisionError else Inr (to_double n d))"

type_synonym probabilities = "string \<rightharpoonup> rat"

definition state_probabilities :: "counters \<Rightarrow> string \<Rightarrow> error + probabilities" where
  "state_probabilities cs game_state =
     (let num_p1_wins_from_state = p1_win_counter cs game_state;
          num_p2_wins_from_state = p2_win_counter cs game_state;
          num_draws_from_state = draw_counter cs game_state;
          num_final_outcomes =
            num_p1_wins_from_state + num_p2_wins_from_state + num_draws_from_state
      in (case py_div num_p1_wins_from_state num_final_outcomes of Inl e \<Rightarrow> Inl e | Inr a \<Rightarrow>
         (case py_div num_p2_wins_from_state num_final_outcomes of Inl e \<Rightarrow> Inl e | Inr b \<Rightarrow>
         (case py_div num_draws_from_state num_final_outcomes of Inl e \<Rightarrow> Inl e | Inr c \<Rightarrow>
            Inr [''p1_wins'' \<mapsto> round5 a, ''p2_wins'' \<mapsto> round5 b,
                 ''draw'' \<mapsto> round5 c]))))"

fun probabilities_loop ::
  "counters \<Rightarrow> string list \<Rightarrow> (string \<rightharpoonup> probabilities) \<Rightarrow> error + (string \<rightharpoonup> probabilities)" where
  "probabilities_loop cs [] outcome_probabilities = Inr outcome_probabilities"
| "probabilities_loop cs (game_state # rest) outcome_probabilities =
     (case state_probabilities cs game_state of
        Inl e \<Rightarrow> Inl e
      | Inr p \<Rightarrow> probabilities_loop cs rest (outcome_probabilities(game_state \<mapsto> p)))"

subsection \<open>The table for the AI player\<close>

text \<open>
  The inner dictionary \<^verbatim>\<open>possible_moves_data\<close> is read back in insertion order
  by \<^verbatim>\<open>next_best_move\<close>, so it is an association list; \<open>AList.update\<close> replaces
  the value of a key in place and puts a new key last, as a Python dict does.
\<close>

type_synonym moves_data = "(string \<times> probabilities) list"

fun moves_data_loop ::
  "(string \<rightharpoonup> probabilities) \<Rightarrow> string list \<Rightarrow> moves_data \<Rightarrow> error + moves_data" where
  "moves_data_loop outcome_probabilities [] possible_moves_data = Inr possible_moves_data"
| "moves_data_loop outcome_probabilities (possible_move # rest) possible_moves_data =
     (case outcome_probabilities possible_move of
        None \<Rightarrow> Inl KeyError
      | Some p \<Rightarrow>
          moves_data_loop outcome_probabilities rest
            (AList.update possible_move p possible_moves_data))"

fun database_loop ::
  "(string \<rightharpoonup> probabilities) \<Rightarrow> string list \<Rightarrow> (string \<rightharpoonup> moves_data) \<Rightarrow>
   error + (string \<rightharpoonup> moves_data)" where
  "database_loop outcome_probabilities [] ai_player_database = Inr ai_player_database"
| "database_loop outcome_probabilities (game_state # rest) ai_player_database =
     (case winning_state game_state ''1'' of Inl e \<Rightarrow> Inl e | Inr w1 \<Rightarrow>
     (case (if w1 then Inr True else winning_state game_state ''2'') of
        Inl e \<Rightarrow> Inl e
      | Inr True \<Rightarrow> database_loop outcome_probabilities rest ai_player_database
      | Inr False \<Rightarrow>
          (case get_possible_moves game_state of Inl e \<Rightarrow> Inl e | Inr ms \<Rightarrow>
          (case moves_data_loop outcome_probabilities ms [] of Inl e \<Rightarrow> Inl e | Inr d \<Rightarrow>
             database_loop outcome_probabilities rest
               (ai_player_database(game_state \<mapsto> d))))))"

text \<open>The cells of the notebook up to the table, run in order.\<close>

definition counted :: "error + counters" where
  "counted =
     (case possible_games of Inl e \<Rightarrow> Inl e | Inr games \<Rightarrow> count_games games no_counts)"

definition outcome_probabilities :: "error + (string \<rightharpoonup> probabilities)" where
  "outcome_probabilities =
     (case counted of Inl e \<Rightarrow> Inl e | Inr cs \<Rightarrow>
      probabilities_loop cs (interim_states cs) Map.empty)"

definition ai_player_database :: "error + (string \<rightharpoonup> moves_data)" where
  "ai_player_database =
     (case counted of Inl e \<Rightarrow> Inl e | Inr cs \<Rightarrow>
     (case outcome_probabilities of Inl e \<Rightarrow> Inl e | Inr op \<Rightarrow>
        database_loop op (interim_states cs) Map.empty))"

subsection \<open>\<^verbatim>\<open>next_best_move\<close>\<close>

text \<open>
  The function reads the global table; here the table is a parameter. The
  \<^verbatim>\<open>print\<close> is left out. With a strategy other than \<^verbatim>\<open>"win"\<close> the name
  \<^verbatim>\<open>best_move\<close> is read before any assignment.
\<close>

fun moves_and_probs_loop :: "string \<Rightarrow> moves_data \<Rightarrow> error + (string \<times> rat) list" where
  "moves_and_probs_loop data_key [] = Inr []"
| "moves_and_probs_loop data_key ((move, move_data) # rest) =
     (case move_data data_key of
        None \<Rightarrow> Inl KeyError
      | Some p \<Rightarrow>
          (case moves_and_probs_loop data_key rest of
             Inl e \<Rightarrow> Inl e
           | Inr ps \<Rightarrow> Inr ((move, p) # ps)))"

definition next_best_move ::
  "(string \<rightharpoonup> moves_data) \<Rightarrow> string \<Rightarrow> string \<Rightarrow> error + string" where
  "next_best_move database game_state strategy =
     (let player = current_player game_state
      in case database game_state of
           None \<Rightarrow> Inl KeyError
         | Some possible_move_data \<Rightarrow>
             if strategy = ''win'' then
               (let data_key = ''p'' @ player @ ''_wins''
                in case moves_and_probs_loop data_key possible_move_data of
                     Inl e \<Rightarrow> Inl e
                   | Inr moves_and_probs \<Rightarrow>
                       (case last_item (sort_key snd moves_and_probs) of
                          Inl e \<Rightarrow> Inl e
                        | Inr best_move \<Rightarrow> Inr (fst best_move)))
             else Inl UnboundLocalError)"

section \<open>Definitions used in the statements and proofs\<close>

text \<open>
  The functions of this section have no error branch. On boards of nine cells
  they agree with the functions of the notebook, which is proved where they
  are first used.
\<close>

text \<open>All three cells of a line hold the player's mark.\<close>

definition line_full :: "string \<Rightarrow> string \<Rightarrow> nat \<times> nat \<times> nat \<Rightarrow> bool" where
  "line_full s p l = (case l of (i, j, k) \<Rightarrow> [s ! i] = p \<and> [s ! j] = p \<and> [s ! k] = p)"

text \<open>The character that \<^verbatim>\<open>current_player\<close> returns as a one-character string.\<close>

definition mark :: "string \<Rightarrow> char" where
  "mark game_state =
     (if count_list game_state CHR ''1'' \<le> count_list game_state CHR ''2''
      then CHR ''1'' else CHR ''2'')"

text \<open>The successors of a board: one per empty cell among the first nine, in index order.\<close>

definition moves :: "string \<Rightarrow> string list" where
  "moves s = map (\<lambda>i. s[i := mark s]) (filter (\<lambda>i. i < length s \<and> s ! i = CHR ''0'') [0..<9])"

text \<open>\<^verbatim>\<open>winning_state\<close> without the index checks, and the test both loops make before expanding a board.\<close>

definition wins :: "string \<Rightarrow> string \<Rightarrow> bool" where
  "wins s p = list_ex (line_full s p) winning_lines"

definition finished :: "string \<Rightarrow> bool" where
  "finished s = (wins s ''1'' \<or> wins s ''2'')"

definition zeros :: "string \<Rightarrow> nat" where
  "zeros s = count_list s CHR ''0''"

text \<open>
  The games that \<open>n\<close> rounds of the loop of phase 1 grow out of a game that
  ends in board \<open>b\<close>, without the part before \<open>b\<close>: a won board is carried
  forward, any other board is replaced by its successors.
\<close>

fun paths :: "nat \<Rightarrow> string \<Rightarrow> string list list" where
  "paths 0 b = [[b]]"
| "paths (Suc n) b =
     (if finished b then [[b]]
      else concat (map (\<lambda>m. map ((#) b) (paths n m)) (moves b)))"

definition grow :: "nat \<Rightarrow> string list \<Rightarrow> string list list" where
  "grow n game = map ((@) (butlast game)) (paths n (last game))"

text \<open>A game the loop can work on: it has a last board, of nine cells.\<close>

definition playable :: "string list \<Rightarrow> bool" where
  "playable game = (game \<noteq> [] \<and> length (last game) = 9)"

text \<open>Counts of games won by player 1, won by player 2 and drawn.\<close>

type_synonym tally = "nat \<times> nat \<times> nat"

fun add3 :: "tally \<Rightarrow> tally \<Rightarrow> tally" where
  "add3 (a, b, c) (x, y, z) = (a + x, b + y, c + z)"

fun sum3 :: "tally list \<Rightarrow> tally" where
  "sum3 [] = (0, 0, 0)"
| "sum3 (x # xs) = add3 x (sum3 xs)"

text \<open>The result of a game that ends in board \<open>b\<close>, tested as \<^verbatim>\<open>game_outcome\<close> tests it.\<close>

definition outcome3 :: "string \<Rightarrow> tally" where
  "outcome3 b = (if wins b ''1'' then (1, 0, 0) else if wins b ''2'' then (0, 1, 0) else (0, 0, 1))"

definition outcome_label :: "string \<Rightarrow> string" where
  "outcome_label b =
     (if wins b ''1'' then ''player 1 wins'' else if wins b ''2'' then ''player 2 wins''
      else ''draw'')"

text \<open>The results of the games of \<open>paths n b\<close>, counted without building them.\<close>

fun cnt :: "nat \<Rightarrow> string \<Rightarrow> tally" where
  "cnt 0 b = outcome3 b"
| "cnt (Suc n) b = (if finished b then outcome3 b else sum3 (map (cnt n) (moves b)))"

text \<open>The specification's \<open>isTerminal\<close>: a win for either player, or no empty cell.\<close>

definition is_terminal :: "string \<Rightarrow> bool" where
  "is_terminal b = (wins b ''1'' \<or> wins b ''2'' \<or> zeros b = 0)"

definition tally :: "counters \<Rightarrow> string \<Rightarrow> tally" where
  "tally cs x = (p1_win_counter cs x, p2_win_counter cs x, draw_counter cs x)"

fun scale3 :: "nat \<Rightarrow> tally \<Rightarrow> tally" where
  "scale3 n (a, b, c) = (n * a, n * b, n * c)"

fun total3 :: "tally \<Rightarrow> nat" where
  "total3 (a, b, c) = a + b + c"

definition tally_of :: "string list list \<Rightarrow> string \<Rightarrow> tally" where
  "tally_of games x = sum3 (map (\<lambda>g. scale3 (count_list g x) (outcome3 (last g))) games)"

definition visited :: "nat \<Rightarrow> string \<Rightarrow> string set" where
  "visited n b = \<Union> (set ` set (paths n b))"

inductive reachable :: "string \<Rightarrow> bool" where
  start: "reachable ''000000000''"
| move: "reachable b \<Longrightarrow> get_possible_moves b = Inr ms \<Longrightarrow> m \<in> set ms \<Longrightarrow> reachable m"

fun probs_of :: "tally \<Rightarrow> probabilities" where
  "probs_of (a, b, c) =
     [''p1_wins'' \<mapsto> round5 (to_double a (a + b + c)),
      ''p2_wins'' \<mapsto> round5 (to_double b (a + b + c)),
      ''draw'' \<mapsto> round5 (to_double c (a + b + c))]"

definition final_tally :: "string \<Rightarrow> tally" where
  "final_tally x = tally_of (paths 9 ''000000000'') x"

definition table_probs :: "string \<rightharpoonup> probabilities" where
  "table_probs x =
     (if x \<in> visited 9 ''000000000'' then Some (probs_of (final_tally x)) else None)"

definition table :: "string \<rightharpoonup> moves_data" where
  "table x =
     (if x \<in> visited 9 ''000000000'' \<and> \<not> finished x
      then Some (map (\<lambda>m. (m, probs_of (final_tally m))) (moves x)) else None)"

definition nearest :: "int \<Rightarrow> int \<Rightarrow> int" where
  "nearest a b =
     (if 2 * (a mod b) < b then a div b
      else if b < 2 * (a mod b) then a div b + 1
      else if even (a div b) then a div b else a div b + 1)"

text \<open>
  A game as the rules have it, in terms of the notebook's own functions: no board
  but the last is won, and every board after the first is one of the moves that
  \<^verbatim>\<open>get_possible_moves\<close> returns for the board before it. A complete game starts
  at the empty board and ends in a terminal one.
\<close>

fun legal_play :: "string list \<Rightarrow> bool" where
  "legal_play [] = False"
| "legal_play [b] = True"
| "legal_play (b # m # rest) =
     (winning_state b ''1'' = Inr False \<and> winning_state b ''2'' = Inr False \<and>
      (case get_possible_moves b of Inl e \<Rightarrow> False | Inr ms \<Rightarrow> m \<in> set ms) \<and>
      legal_play (m # rest))"

definition complete_game :: "string list \<Rightarrow> bool" where
  "complete_game game =
     (legal_play game \<and> hd game = ''000000000'' \<and> is_terminal (last game))"


text \<open>
  The probability that \<^verbatim>\<open>next_best_move\<close> compares, in the specification's words:
  the \<^verbatim>\<open>p1_wins\<close> field if the player to move is player 1, else the \<^verbatim>\<open>p2_wins\<close>
  field.
\<close>

definition win_probability :: "string \<Rightarrow> probabilities \<Rightarrow> rat option" where
  "win_probability board p =
     (if current_player board = ''1'' then p ''p1_wins'' else p ''p2_wins'')"

subsection \<open>Helpers for computing the counts inside the logic\<close>

text \<open>
  Small numbers as successor terms, and strict replacements for
  \<open>if\<close> in the equations the simplifier evaluates with.
\<close>

abbreviation (input) two :: nat where "two \<equiv> Suc (Suc 0)"
abbreviation (input) three :: nat where "three \<equiv> Suc two"
abbreviation (input) four :: nat where "four \<equiv> Suc three"
abbreviation (input) five :: nat where "five \<equiv> Suc four"
abbreviation (input) six :: nat where "six \<equiv> Suc five"
abbreviation (input) seven :: nat where "seven \<equiv> Suc six"
abbreviation (input) eight :: nat where "eight \<equiv> Suc seven"
abbreviation (input) nine :: nat where "nine \<equiv> Suc eight"

fun pick :: "bool \<Rightarrow> 'a \<Rightarrow> 'a list \<Rightarrow> 'a list" where
  "pick True x xs = x # xs"
| "pick False x xs = xs"

fun sel :: "bool \<Rightarrow> 'a \<Rightarrow> 'a \<Rightarrow> 'a" where
  "sel True x y = x"
| "sel False x y = y"

fun bump :: "bool \<Rightarrow> nat \<Rightarrow> nat" where
  "bump True n = Suc n"
| "bump False n = n"

text \<open>\<open>fill\<close> computes \<open>moves\<close> by one pass over the first \<open>n\<close> cells.\<close>

fun fill :: "nat \<Rightarrow> char \<Rightarrow> string \<Rightarrow> string \<Rightarrow> string list" where
  "fill 0 c pre rest = []"
| "fill (Suc n) c pre [] = []"
| "fill (Suc n) c pre (x # rest) =
     pick (x = CHR ''0'') (pre @ c # rest) (fill n c (pre @ [x]) rest)"

text \<open>
  \<open>facts k z a c pre\<close> states the value of \<open>cnt k\<close> on every board that extends
  \<open>pre\<close> by \<open>z\<close> empty cells, \<open>a\<close> marks of player 1 and \<open>c\<close> marks of player 2
  in any order; \<open>holds\<close> keeps the simplifier from touching the board.
\<close>

definition holds :: "nat \<Rightarrow> string \<Rightarrow> tally \<Rightarrow> bool" where
  "holds n b v = (cnt n b = v)"

fun facts :: "nat \<Rightarrow> nat \<Rightarrow> nat \<Rightarrow> nat \<Rightarrow> string \<Rightarrow> bool" where
  "facts k 0 0 0 pre = holds k pre (cnt k pre)"
| "facts k (Suc z) 0 0 pre = facts k z 0 0 (pre @ ''0'')"
| "facts k 0 (Suc a) 0 pre = facts k 0 a 0 (pre @ ''1'')"
| "facts k 0 0 (Suc c) pre = facts k 0 0 c (pre @ ''2'')"
| "facts k (Suc z) (Suc a) 0 pre =
     (facts k z (Suc a) 0 (pre @ ''0'') \<and> facts k (Suc z) a 0 (pre @ ''1''))"
| "facts k (Suc z) 0 (Suc c) pre =
     (facts k z 0 (Suc c) (pre @ ''0'') \<and> facts k (Suc z) 0 c (pre @ ''2''))"
| "facts k 0 (Suc a) (Suc c) pre =
     (facts k 0 a (Suc c) (pre @ ''1'') \<and> facts k 0 (Suc a) c (pre @ ''2''))"
| "facts k (Suc z) (Suc a) (Suc c) pre =
     (facts k z (Suc a) (Suc c) (pre @ ''0'') \<and> facts k (Suc z) a (Suc c) (pre @ ''1'') \<and>
      facts k (Suc z) (Suc a) c (pre @ ''2''))"

fun out :: "bool \<Rightarrow> bool \<Rightarrow> tally" where
  "out True w = (1, 0, 0)"
| "out False True = (0, 1, 0)"
| "out False False = (0, 0, 1)"

section \<open>What \<^verbatim>\<open>winning_state\<close> and \<^verbatim>\<open>get_possible_moves\<close> compute\<close>

lemma line_check_in_range:
  "i < length s \<Longrightarrow> j < length s \<Longrightarrow> k < length s \<Longrightarrow>
   line_check s i j k p = Inr (line_full s p (i, j, k))"
  by (auto simp: line_check_def getitem_def line_full_def)

lemma check_lines_in_range:
  "list_all (\<lambda>(i, j, k). i < length s \<and> j < length s \<and> k < length s) ls \<Longrightarrow>
   check_lines s p ls = Inr (list_ex (line_full s p) ls)"
proof (induction ls)
  case Nil
  show ?case by simp
next
  case (Cons l ls)
  obtain i j k where l: "l = (i, j, k)" by (cases l) auto
  from Cons.prems l have r: "i < length s" "j < length s" "k < length s" by auto
  from Cons show ?case by (simp add: l line_check_in_range [OF r] split: bool.splits)
qed

lemma winning_state_9:
  "9 \<le> length s \<Longrightarrow> winning_state s p = Inr (list_ex (line_full s p) winning_lines)"
  unfolding winning_state_def
  by (rule check_lines_in_range) (auto simp: winning_lines_def)

lemma winning_state_sets:
  assumes "length game_state = 9"
  shows "winning_state game_state player =
        Inr (\<exists>line \<in> {{0, 1, 2}, {3, 4, 5}, {6, 7, 8}, {0, 3, 6}, {1, 4, 7}, {2, 5, 8},
                       {0, 4, 8}, {2, 4, 6}}.
               \<forall>i \<in> line. [game_state ! i] = player)"
proof -
  from assms have "9 \<le> length game_state" by simp
  then show ?thesis
    by (simp add: winning_state_9 winning_lines_def line_full_def)
qed

lemma winning_state_examples:
  "winning_state ''111212122'' ''1'' = Inr True"
  "winning_state ''120210001'' ''1'' = Inr True"
  "winning_state ''112012100'' ''1'' = Inr False"
  "winning_state ''222121211'' ''2'' = Inr True"
  by (simp_all add: winning_state_9 winning_lines_def line_full_def)

text \<open>
  Claim C6. On a board of nine cells \<^verbatim>\<open>winning_state\<close> returns true exactly when
  one of the eight lines (three rows, three columns, two diagonals, given by
  their index sets) has all three cells equal to the player; the four example
  calls of the specification evaluate as stated.
\<close>

theorem winning_state_lines:
  "(length game_state = 9 \<longrightarrow>
      winning_state game_state player =
        Inr (\<exists>line \<in> {{0, 1, 2}, {3, 4, 5}, {6, 7, 8}, {0, 3, 6}, {1, 4, 7}, {2, 5, 8},
                       {0, 4, 8}, {2, 4, 6}}.
               \<forall>i \<in> line. [game_state ! i] = player)) \<and>
   winning_state ''111212122'' ''1'' = Inr True \<and>
   winning_state ''120210001'' ''1'' = Inr True \<and>
   winning_state ''112012100'' ''1'' = Inr False \<and>
   winning_state ''222121211'' ''2'' = Inr True"
  using winning_state_sets winning_state_examples by blast

theorem winning_state_lines_witness:
  "length ''111212122'' = 9 \<and>
   winning_state ''111212122'' ''1'' =
     Inr (\<exists>line \<in> {{0, 1, 2}, {3, 4, 5}, {6, 7, 8}, {0, 3, 6}, {1, 4, 7}, {2, 5, 8},
                    {0, 4, 8}, {2, 4, 6}}.
            \<forall>i \<in> line. [''111212122'' ! i] = ''1'')"
proof -
  have len: "length ''111212122'' = 9" by simp
  note th = winning_state_lines [of "''111212122''" "''1''", THEN conjunct1, THEN mp, OF len]
  show ?thesis by (rule conjI [OF len th])
qed

lemma current_player_mark: "current_player s = [mark s]"
  by (simp add: current_player_def mark_def)

lemma mark_not_empty: "mark s \<noteq> CHR ''0''"
  by (simp add: mark_def)

lemma moves_loop_eq:
  "\<forall>i \<in> set js. i < length s \<Longrightarrow>
   moves_loop s js acc =
     Inr (acc @ map (\<lambda>i. s[i := mark s]) (filter (\<lambda>i. s ! i = CHR ''0'') js))"
proof (induction js arbitrary: acc)
  case Nil
  show ?case by simp
next
  case (Cons i js)
  then have i: "i < length s" by simp
  then have upd: "take i s @ current_player s @ drop (Suc i) s = s[i := mark s]"
    by (simp add: current_player_mark upd_conv_take_nth_drop)
  from Cons i show ?case by (simp add: getitem_def upd)
qed

lemma get_possible_moves_9:
  assumes "9 \<le> length s"
  shows "get_possible_moves s =
     Inr (map (\<lambda>i. s[i := mark s]) (filter (\<lambda>i. s ! i = CHR ''0'') [0..<9]))"
proof -
  from assms have "\<forall>i \<in> set [0..<9]. i < length s" by auto
  from moves_loop_eq [OF this, of "[]"] show ?thesis
    by (simp add: get_possible_moves_def)
qed

lemma get_possible_moves_moves: "9 \<le> length s \<Longrightarrow> get_possible_moves s = Inr (moves s)"
proof -
  assume a: "9 \<le> length s"
  then have "filter (\<lambda>i. i < length s \<and> s ! i = CHR ''0'') [0..<9] =
             filter (\<lambda>i. s ! i = CHR ''0'') [0..<9]"
    by (intro filter_cong) auto
  with a show ?thesis by (simp add: get_possible_moves_9 moves_def)
qed

lemma upt_9: "[0..<9] = [0, 1, 2, 3, 4, 5, 6, 7, 8]"
  by (simp add: upt_rec)

lemma get_possible_moves_example:
  "get_possible_moves ''120120100'' =
     Inr [''122120100'', ''120122100'', ''120120120'', ''120120102'']"
  by (simp add: get_possible_moves_9 upt_9 mark_def)

text \<open>
  Claim C7. On a board of nine cells \<^verbatim>\<open>get_possible_moves\<close> returns, in
  ascending order of the cell index, one successor for every empty cell: the
  board with that cell set to the mark of \<^verbatim>\<open>current_player\<close> (1 when the count
  of 1 is at most the count of 2, else 2) and every other cell unchanged. The
  example of the specification evaluates to the four boards it lists.
\<close>

theorem get_possible_moves_successors:
  "(length game_state = 9 \<longrightarrow>
      current_player game_state = [mark game_state] \<and>
      get_possible_moves game_state =
        Inr (map (\<lambda>i. game_state[i := mark game_state])
               (filter (\<lambda>i. game_state ! i = CHR ''0'') [0..<9]))) \<and>
   get_possible_moves ''120120100'' =
     Inr [''122120100'', ''120122100'', ''120120120'', ''120120102'']"
  using get_possible_moves_9 [of game_state] get_possible_moves_example
  by (simp add: current_player_mark)

theorem get_possible_moves_successors_witness:
  "length ''120120100'' = 9 \<and>
   current_player ''120120100'' = [mark ''120120100''] \<and>
   get_possible_moves ''120120100'' =
     Inr (map (\<lambda>i. ''120120100''[i := mark ''120120100''])
            (filter (\<lambda>i. ''120120100'' ! i = CHR ''0'') [0..<9]))"
proof -
  have len: "length ''120120100'' = 9" by simp
  note th = get_possible_moves_successors [of "''120120100''", THEN conjunct1, THEN mp, OF len]
  show ?thesis by (rule conjI [OF len th])
qed

lemma moves_empty_iff:
  assumes "length s = 9"
  shows "moves s = [] \<longleftrightarrow> CHR ''0'' \<notin> set s"
proof -
  have "moves s = [] \<longleftrightarrow> (\<forall>i < 9. s ! i \<noteq> CHR ''0'')"
    using assms by (auto simp: moves_def filter_empty_conv)
  also have "\<dots> \<longleftrightarrow> CHR ''0'' \<notin> set s"
    using assms by (auto simp: in_set_conv_nth)
  finally show ?thesis .
qed

section \<open>Phase 1 as a tree of games\<close>

text \<open>
  On playable games every call in the loop of phase 1 returns, one round
  replaces every game by the games of \<open>grow 1\<close>, and nine rounds from the
  empty board give \<open>paths 9\<close> of it. The rebinding of \<^verbatim>\<open>possible_games\<close>
  inside the inner loop changes nothing: when no game of a round is expanded
  the new list equals the old one.
\<close>

lemma winning_state_wins: "9 \<le> length s \<Longrightarrow> winning_state s p = Inr (wins s p)"
  by (simp add: winning_state_9 wins_def)

lemma moves_length: "m \<in> set (moves b) \<Longrightarrow> length m = length b"
  by (auto simp: moves_def)

lemma paths_finished: "finished b \<Longrightarrow> paths n b = [[b]]"
  by (cases n) simp_all

lemma grow_1:
  "game \<noteq> [] \<Longrightarrow>
   grow (Suc 0) game =
     (if finished (last game) then [game] else map (\<lambda>move. game @ [move]) (moves (last game)))"
  by (simp add: grow_def comp_def)

lemma round_loop_step:
  assumes "\<forall>game \<in> set games. playable game"
  shows "round_loop games st =
     Inr \<lparr>new_possible_games = new_possible_games st @ concat (map (grow (Suc 0)) games),
          rebound = (rebound st \<or> (\<exists>game \<in> set games. \<not> finished (last game)))\<rparr>"
  using assms
proof (induction games arbitrary: st)
  case Nil
  show ?case by simp
next
  case (Cons game games)
  then have g: "game \<noteq> []" and len: "9 \<le> length (last game)"
    by (simp_all add: playable_def)
  from Cons.prems have rest: "\<forall>game \<in> set games. playable game" by simp
  show ?case
  proof (cases "finished (last game)")
    case True
    then show ?thesis
      using g len Cons.IH [OF rest]
      by (auto simp: last_item_def winning_state_wins finished_def grow_1)
  next
    case False
    then show ?thesis
      using g len Cons.IH [OF rest]
      by (auto simp: last_item_def winning_state_wins finished_def grow_1
          get_possible_moves_moves)
  qed
qed

lemma concat_singletons: "\<forall>x \<in> set xs. f x = [x] \<Longrightarrow> concat (map f xs) = xs"
  by (induction xs) auto

lemma concat_map_over_concat:
  "concat (map f (concat xss)) = concat (map (\<lambda>xs. concat (map f xs)) xss)"
  by (induction xss) simp_all

lemma all_finished_step:
  "\<forall>game \<in> set games. game \<noteq> [] \<and> finished (last game) \<Longrightarrow>
   concat (map (grow (Suc 0)) games) = games"
  by (rule concat_singletons) (simp add: grow_1)

lemma grow_Suc:
  assumes "game \<noteq> []"
  shows "concat (map (grow n) (grow (Suc 0) game)) = grow (Suc n) game"
proof (cases "finished (last game)")
  case True
  then show ?thesis using assms by (simp add: grow_1) (simp add: grow_def paths_finished)
next
  case False
  have glue: "butlast game @ last game # p = game @ p" for p
    using assms by (metis append.assoc append_Cons append_Nil append_butlast_last_id)
  have "grow (Suc 0) game = map (\<lambda>move. game @ [move]) (moves (last game))"
    using False assms by (simp add: grow_1)
  then have "concat (map (grow n) (grow (Suc 0) game)) =
        concat (map (\<lambda>m. map ((@) game) (paths n m)) (moves (last game)))"
    by (simp add: comp_def grow_def)
  also have "\<dots> = grow (Suc n) game"
    using False by (simp add: grow_def map_concat comp_def glue)
  finally show ?thesis .
qed

lemma playable_grow_1:
  assumes "playable game" "g' \<in> set (grow (Suc 0) game)"
  shows "playable g'"
  using assms by (auto simp: playable_def grow_1 moves_length split: if_splits)

lemma game_rounds_grow:
  "\<forall>game \<in> set games. playable game \<Longrightarrow>
   game_rounds n games = Inr (concat (map (grow n) games))"
proof (induction n arbitrary: games)
  case 0
  have "grow 0 game = [game]" if "playable game" for game
    using that by (simp add: grow_def playable_def)
  with 0 have "concat (map (grow 0) games) = games" by (intro concat_singletons) auto
  then show ?case by simp
next
  case (Suc n)
  let ?next = "concat (map (grow (Suc 0)) games)"
  have nonempty: "\<forall>game \<in> set games. game \<noteq> []"
    using Suc.prems by (simp add: playable_def)
  have step: "(if \<exists>game \<in> set games. \<not> finished (last game) then ?next else games) = ?next"
    using all_finished_step [of games] nonempty by auto
  have ok: "\<forall>game \<in> set ?next. playable game"
    using Suc.prems playable_grow_1 by auto
  have "concat (map (grow n) ?next) = concat (map (\<lambda>g. concat (map (grow n) (grow (Suc 0) g))) games)"
    by (simp add: concat_map_over_concat comp_def)
  also have "\<dots> = concat (map (grow (Suc n)) games)"
    using nonempty by (intro arg_cong [where f = concat] map_cong) (auto simp: grow_Suc)
  finally have shift: "concat (map (grow n) ?next) = concat (map (grow (Suc n)) games)" .
  have "game_rounds (Suc n) games =
        game_rounds n (if \<exists>game \<in> set games. \<not> finished (last game) then ?next else games)"
    by (simp add: round_loop_step [OF Suc.prems])
  also have "\<dots> = game_rounds n ?next" by (simp only: step)
  also have "\<dots> = Inr (concat (map (grow n) ?next))" by (rule Suc.IH [OF ok])
  also have "\<dots> = Inr (concat (map (grow (Suc n)) games))" by (simp only: shift)
  finally show ?case .
qed

lemma possible_games_paths: "possible_games = Inr (paths 9 ''000000000'')"
proof -
  have "\<forall>game \<in> set [[''000000000'']]. playable game" by (simp add: playable_def)
  from game_rounds_grow [OF this, of 9] show ?thesis
    unfolding possible_games_def by (simp add: grow_def map_idI)
qed

section \<open>Won boards and the callers of \<^verbatim>\<open>get_possible_moves\<close>\<close>

lemma round_loop_won:
  assumes "length game_state = 9"
    "winning_state game_state ''1'' = Inr True \<or> winning_state game_state ''2'' = Inr True"
  shows "round_loop ((game @ [game_state]) # rest) st =
         round_loop rest
           (st\<lparr>new_possible_games := new_possible_games st @ [game @ [game_state]]\<rparr>)"
  using assms by (auto simp: last_item_def winning_state_wins)

lemma database_loop_won:
  assumes "length game_state = 9"
    "winning_state game_state ''1'' = Inr True \<or> winning_state game_state ''2'' = Inr True"
  shows "database_loop probs (game_state # rest) db =
         database_loop probs rest db"
  using assms by (auto simp: winning_state_wins)

text \<open>
  Claim C3, as amended. On a board of nine cells \<^verbatim>\<open>get_possible_moves\<close> returns
  the empty list exactly when no cell is empty. A winning line does not empty
  the result: the function never looks for one, and returns one successor for
  every empty cell, on a won board as on any other. The test for a win is made
  by the callers: on a game whose last board is won, the loop of phase 1 keeps
  the game as it is, and the loop that builds the table passes over a won board;
  neither calls \<^verbatim>\<open>get_possible_moves\<close> there.
\<close>

theorem get_possible_moves_empty_iff:
  "length game_state = 9 \<Longrightarrow>
   (get_possible_moves game_state = Inr [] \<longleftrightarrow> CHR ''0'' \<notin> set game_state) \<and>
   get_possible_moves game_state =
     Inr (map (\<lambda>i. game_state[i := mark game_state])
            (filter (\<lambda>i. game_state ! i = CHR ''0'') [0..<9])) \<and>
   (winning_state game_state ''1'' = Inr True \<or> winning_state game_state ''2'' = Inr True \<longrightarrow>
      round_loop ((game @ [game_state]) # rest) st =
        round_loop rest
          (st\<lparr>new_possible_games := new_possible_games st @ [game @ [game_state]]\<rparr>) \<and>
      database_loop probs (game_state # states) db =
        database_loop probs states db)"
proof (intro conjI impI)
  assume len: "length game_state = 9"
  show "get_possible_moves game_state = Inr [] \<longleftrightarrow> CHR ''0'' \<notin> set game_state"
    using len by (simp add: get_possible_moves_moves moves_empty_iff)
  show "get_possible_moves game_state =
     Inr (map (\<lambda>i. game_state[i := mark game_state])
            (filter (\<lambda>i. game_state ! i = CHR ''0'') [0..<9]))"
    using len by (simp add: get_possible_moves_9)
  assume won: "winning_state game_state ''1'' = Inr True \<or>
               winning_state game_state ''2'' = Inr True"
  show "round_loop ((game @ [game_state]) # rest) st =
        round_loop rest
          (st\<lparr>new_possible_games := new_possible_games st @ [game @ [game_state]]\<rparr>)"
    using len won by (rule round_loop_won)
  show "database_loop probs (game_state # states) db = database_loop probs states db"
    using len won by (rule database_loop_won)
qed

theorem get_possible_moves_empty_iff_witness:
  "length ''111220000'' = 9 \<and>
   (get_possible_moves ''111220000'' = Inr [] \<longleftrightarrow> CHR ''0'' \<notin> set ''111220000'') \<and>
   get_possible_moves ''111220000'' =
     Inr (map (\<lambda>i. ''111220000''[i := mark ''111220000''])
            (filter (\<lambda>i. ''111220000'' ! i = CHR ''0'') [0..<9])) \<and>
   (winning_state ''111220000'' ''1'' = Inr True \<or>
    winning_state ''111220000'' ''2'' = Inr True) \<and>
   round_loop [[''000000000'', ''111220000'']] \<lparr>new_possible_games = [], rebound = False\<rparr> =
     Inr \<lparr>new_possible_games = [[''000000000'', ''111220000'']], rebound = False\<rparr> \<and>
   database_loop Map.empty [''111220000''] Map.empty = Inr Map.empty"
proof -
  have len: "length ''111220000'' = 9" by simp
  have won: "winning_state ''111220000'' ''1'' = Inr True \<or>
             winning_state ''111220000'' ''2'' = Inr True"
    by (simp add: winning_state_9 winning_lines_def line_full_def)
  note th = get_possible_moves_empty_iff [OF len, of "[''000000000'']" "[]"
      "\<lparr>new_possible_games = [], rebound = False\<rparr>" Map.empty "[]" Map.empty]
  from th have a: "get_possible_moves ''111220000'' = Inr [] \<longleftrightarrow> CHR ''0'' \<notin> set ''111220000''"
    by (rule conjunct1)
  from th have b: "get_possible_moves ''111220000'' =
     Inr (map (\<lambda>i. ''111220000''[i := mark ''111220000''])
            (filter (\<lambda>i. ''111220000'' ! i = CHR ''0'') [0..<9]))"
    by (rule conjunct2 [THEN conjunct1])
  from th have c: "round_loop (([''000000000''] @ [''111220000'']) # [])
       \<lparr>new_possible_games = [], rebound = False\<rparr> =
     round_loop [] (\<lparr>new_possible_games = [], rebound = False\<rparr>
       \<lparr>new_possible_games := new_possible_games \<lparr>new_possible_games = [], rebound = False\<rparr> @
          [[''000000000''] @ [''111220000'']]\<rparr>) \<and>
     database_loop Map.empty (''111220000'' # []) Map.empty = database_loop Map.empty [] Map.empty"
    using won by (rule conjunct2 [THEN conjunct2, THEN mp])
  from c have c1: "round_loop [[''000000000'', ''111220000'']]
       \<lparr>new_possible_games = [], rebound = False\<rparr> =
     Inr \<lparr>new_possible_games = [[''000000000'', ''111220000'']], rebound = False\<rparr>"
    by simp
  from c have c2: "database_loop Map.empty [''111220000''] Map.empty = Inr Map.empty"
    by simp
  from len a b won c1 c2 show ?thesis by (intro conjI)
qed

text \<open>
  Claim C3 as stated fails: this board is won by player 1 (top row), and
  \<^verbatim>\<open>get_possible_moves\<close> still returns its four successors.
\<close>

theorem won_board_has_moves:
  "length ''111220000'' = 9 \<and>
   winning_state ''111220000'' ''1'' = Inr True \<and>
   get_possible_moves ''111220000'' =
     Inr [''111222000'', ''111220200'', ''111220020'', ''111220002''] \<and>
   get_possible_moves ''111220000'' \<noteq> Inr []"
  by (simp add: get_possible_moves_9 upt_9 mark_def winning_state_9 winning_lines_def
      line_full_def)

section \<open>Properties of the games and their counts\<close>

lemma count_list_update:
  "i < length xs \<Longrightarrow> xs ! i = z \<Longrightarrow> c \<noteq> z \<Longrightarrow>
   Suc (count_list (xs[i := c]) z) = count_list xs z"
proof (induction xs arbitrary: i)
  case Nil
  then show ?case by simp
next
  case (Cons x xs)
  then show ?case by (cases i) auto
qed

lemma zeros_moves: "m \<in> set (moves b) \<Longrightarrow> Suc (zeros m) = zeros b"
  using mark_not_empty [of b] by (auto simp: moves_def zeros_def count_list_update)

lemma zeros_0_moves: "zeros b = 0 \<Longrightarrow> moves b = []"
  using zeros_moves [of _ b] by (cases "moves b") auto

lemma zeros_pos_moves:
  assumes "length b = 9" "0 < zeros b"
  shows "moves b \<noteq> []"
proof -
  from assms(2) have "CHR ''0'' \<in> set b"
    using count_list_0_iff [of b "CHR ''0''"] by (auto simp: zeros_def)
  with moves_empty_iff [OF assms(1)] show ?thesis by simp
qed

lemma paths_head: "p \<in> set (paths n b) \<Longrightarrow> p \<noteq> [] \<and> hd p = b"
  by (induction n arbitrary: b p) (auto split: if_splits)

lemma paths_length: "p \<in> set (paths n b) \<Longrightarrow> x \<in> set p \<Longrightarrow> length x = length b"
proof (induction n arbitrary: b p)
  case 0
  then show ?case by simp
next
  case (Suc n)
  then show ?case by (fastforce split: if_splits simp: moves_length)
qed



lemma paths_end:
  "p \<in> set (paths n b) \<Longrightarrow> zeros b \<le> n \<Longrightarrow> finished (last p) \<or> zeros (last p) = 0"
proof (induction n arbitrary: b p)
  case 0
  then show ?case by simp
next
  case (Suc n)
  show ?case
  proof (cases "finished b")
    case True
    with Suc.prems show ?thesis by simp
  next
    case False
    with Suc.prems obtain m q where m: "m \<in> set (moves b)" and q: "q \<in> set (paths n m)"
      and p: "p = b # q" by auto
    from zeros_moves [OF m] Suc.prems(2) have "zeros m \<le> n" by simp
    from Suc.IH [OF q this] paths_head [OF q] p show ?thesis by simp
  qed
qed

lemma add3_0 [simp]: "add3 (0, 0, 0) t = t" "add3 t (0, 0, 0) = t"
  by (cases t; simp)+

lemma add3_assoc: "add3 (add3 a b) c = add3 a (add3 b c)"
  by (cases a; cases b; cases c) simp

lemma sum3_append: "sum3 (xs @ ys) = add3 (sum3 xs) (sum3 ys)"
  by (induction xs) (simp_all add: add3_assoc)

lemma sum3_concat: "sum3 (concat xss) = sum3 (map sum3 xss)"
  by (induction xss) (simp_all add: sum3_append)

lemma sum3_map_concat_map:
  "sum3 (map f (concat (map g xs))) = sum3 (map (\<lambda>x. sum3 (map f (g x))) xs)"
  by (induction xs) (simp_all add: sum3_append)

lemma sum3_map_cons:
  "sum3 (map (\<lambda>p. outcome3 (last p)) (map ((#) b) (paths n m))) =
   sum3 (map (\<lambda>p. outcome3 (last p)) (paths n m))"
proof -
  have "map (\<lambda>p. outcome3 (last p)) (map ((#) b) (paths n m)) =
        map (\<lambda>p. outcome3 (last p)) (paths n m)"
    unfolding map_map by (rule map_cong) (auto dest: paths_head)
  then show ?thesis by (simp only:)
qed

lemma cnt_paths: "cnt n b = sum3 (map (\<lambda>p. outcome3 (last p)) (paths n b))"
proof (induction n arbitrary: b)
  case 0
  show ?case by simp
next
  case (Suc n)
  show ?case
  proof (cases "finished b")
    case True
    then show ?thesis by simp
  next
    case False
    have ih: "cnt n = (\<lambda>m. sum3 (map (\<lambda>p. outcome3 (last p)) (paths n m)))"
      by (rule ext) (rule Suc)
    from False have unfold: "paths (Suc n) b = concat (map (\<lambda>m. map ((#) b) (paths n m)) (moves b))"
      by simp
    have "sum3 (map (\<lambda>p. outcome3 (last p)) (paths (Suc n) b)) =
          sum3 (map (\<lambda>m. sum3 (map (\<lambda>p. outcome3 (last p)) (paths n m))) (moves b))"
      by (simp only: unfold sum3_map_concat_map sum3_map_cons)
    also have "\<dots> = cnt (Suc n) b"
      using False by (simp add: ih)
    finally show ?thesis by simp
  qed
qed

lemma sum3_count:
  "sum3 (map (\<lambda>p. outcome3 (last p)) ps) =
     (length (filter (\<lambda>p. outcome_label (last p) = ''player 1 wins'') ps),
      length (filter (\<lambda>p. outcome_label (last p) = ''player 2 wins'') ps),
      length (filter (\<lambda>p. outcome_label (last p) = ''draw'') ps))"
  by (induction ps) (auto simp: outcome3_def outcome_label_def)

lemma game_outcome_label: "playable g \<Longrightarrow> game_outcome g = Inr (outcome_label (last g))"
  by (simp add: game_outcome_def playable_def last_item_def winning_state_wins outcome_label_def)

lemma num_outcomes_count:
  "\<forall>g \<in> set games. playable g \<Longrightarrow>
   num_outcomes label games = Inr (length (filter (\<lambda>g. outcome_label (last g) = label) games))"
  by (induction games) (simp_all add: game_outcome_label)

lemma paths_playable: "length b = 9 \<Longrightarrow> p \<in> set (paths n b) \<Longrightarrow> playable p"
  using paths_head [of p n b] paths_length [of p n b "last p"]
  by (auto simp: playable_def)

subsection \<open>The counts, computed\<close>

lemma facts_true: "facts k z a c pre"
  by (induction k z a c pre rule: facts.induct) (simp_all add: holds_def)

lemma chr_neq:
  "(CHR ''0'' = CHR ''1'') = False" "(CHR ''0'' = CHR ''2'') = False"
  "(CHR ''1'' = CHR ''0'') = False" "(CHR ''1'' = CHR ''2'') = False"
  "(CHR ''2'' = CHR ''0'') = False" "(CHR ''2'' = CHR ''1'') = False"
  by simp_all

lemma ev_wins:
  "wins (a # b # c # d # e # f # g # h # i # rest) [q] =
     ((a = q \<and> b = q \<and> c = q) \<or> (d = q \<and> e = q \<and> f = q) \<or> (g = q \<and> h = q \<and> i = q) \<or>
      (a = q \<and> d = q \<and> g = q) \<or> (b = q \<and> e = q \<and> h = q) \<or> (c = q \<and> f = q \<and> i = q) \<or>
      (a = q \<and> e = q \<and> i = q) \<or> (c = q \<and> e = q \<and> g = q))"
  by (simp add: wins_def winning_lines_def line_full_def)

lemma fill_moves:
  "fill n c pre rest =
     map (\<lambda>i. (pre @ rest)[i := c])
       (filter (\<lambda>i. i < length (pre @ rest) \<and> (pre @ rest) ! i = CHR ''0'')
          [length pre ..< length pre + n])"
proof (induction n c pre rest rule: fill.induct)
  case (1 c pre rest)
  show ?case by simp
next
  case (2 n c pre)
  show ?case by (simp add: filter_empty_conv)
next
  case (3 n c pre x rest)
  have "[length pre ..< length pre + Suc n] = length pre # [Suc (length pre) ..< Suc (length pre) + n]"
    by (simp add: upt_conv_Cons)
  with 3 show ?case by (cases "x = CHR ''0''") (simp_all add: nth_append)
qed

lemma ev_moves: "moves b = fill nine (mark b) [] b"
  by (simp add: fill_moves moves_def eval_nat_numeral)

lemma ev_cnt: "cnt (Suc n) b = sel (finished b) (outcome3 b) (sum3 (map (cnt n) (moves b)))"
  by simp

lemma ev_outcome3: "outcome3 b = out (wins b ''1'') (wins b ''2'')"
  by (simp add: outcome3_def)

lemma ev_count: "count_list (x # xs) y = bump (x = y) (count_list xs y)"
  by simp

lemma ev_mark: "mark s = sel (count_list s CHR ''1'' \<le> count_list s CHR ''2'') CHR ''1'' CHR ''2''"
  by (simp add: mark_def)

lemmas ev = facts.simps sum3.simps add3.simps ev_outcome3 out.simps ev_moves
  fill.simps pick.simps sel.simps bump.simps
  ev_mark finished_def ev_wins chr_neq simp_thms
  append.simps list.map count_list.simps(1) ev_count arith_simps add_numeral_special
  le0 Suc_le_mono le_zero_eq nat.distinct

text \<open>
  The counts for the empty board and for the nine boards after the first move.
  The simplifier computes \<open>cnt\<close> for every board with \<open>k\<close> empty cells and the
  marks of a game (6046 boards in all), for \<open>k\<close> from 0 to 8 in turn: the facts
  of one level are the rewrite rules for the successors at the next.
\<close>

lemma cnt_table:
  shows "cnt 9 ''000000000'' = (131184, 77904, 46080)"
    and "cnt 8 ''100000000'' = (14652, 7896, 5184)"
    and "cnt 8 ''010000000'' = (14232, 10176, 5184)"
    and "cnt 8 ''001000000'' = (14652, 7896, 5184)"
    and "cnt 8 ''000100000'' = (14232, 10176, 5184)"
    and "cnt 8 ''000010000'' = (15648, 5616, 4608)"
    and "cnt 8 ''000001000'' = (14232, 10176, 5184)"
    and "cnt 8 ''000000100'' = (14652, 7896, 5184)"
    and "cnt 8 ''000000010'' = (14232, 10176, 5184)"
    and "cnt 8 ''000000001'' = (14652, 7896, 5184)"
    and "cnt 7 ''102000000'' = (1832, 1132, 576)"
proof -
  have n9: "(9::nat) = nine" and n8: "(8::nat) = eight" and n7: "(7::nat) = seven"
    by simp_all
  note l0 = facts_true [of "0" "0" "five" "four" "[]",
      simplified ev cnt.simps(1) , unfolded holds_def]
  note l1 = facts_true [of "(Suc 0)" "(Suc 0)" "four" "four" "[]",
      simplified ev ev_cnt [of "0"] l0, unfolded holds_def]
  note l2 = facts_true [of "two" "two" "four" "three" "[]",
      simplified ev ev_cnt [of "(Suc 0)"] l1, unfolded holds_def]
  note l3 = facts_true [of "three" "three" "three" "three" "[]",
      simplified ev ev_cnt [of "two"] l2, unfolded holds_def]
  note l4 = facts_true [of "four" "four" "three" "two" "[]",
      simplified ev ev_cnt [of "three"] l3, unfolded holds_def]
  note l5 = facts_true [of "five" "five" "two" "two" "[]",
      simplified ev ev_cnt [of "four"] l4, unfolded holds_def]
  note l6 = facts_true [of "six" "six" "two" "(Suc 0)" "[]",
      simplified ev ev_cnt [of "five"] l5, unfolded holds_def]
  note l7 = facts_true [of "seven" "seven" "(Suc 0)" "(Suc 0)" "[]",
      simplified ev ev_cnt [of "six"] l6, unfolded holds_def]
  note l8 = facts_true [of "eight" "eight" "(Suc 0)" "0" "[]",
      simplified ev ev_cnt [of "seven"] l7, unfolded holds_def]
  show "cnt 9 ''000000000'' = (131184, 77904, 46080)"
    unfolding n9 by (simp only: ev ev_cnt [of eight] l8)
  show "cnt 8 ''100000000'' = (14652, 7896, 5184)"
    unfolding n8 by (simp only: l8)
  show "cnt 8 ''010000000'' = (14232, 10176, 5184)"
    unfolding n8 by (simp only: l8)
  show "cnt 8 ''001000000'' = (14652, 7896, 5184)"
    unfolding n8 by (simp only: l8)
  show "cnt 8 ''000100000'' = (14232, 10176, 5184)"
    unfolding n8 by (simp only: l8)
  show "cnt 8 ''000010000'' = (15648, 5616, 4608)"
    unfolding n8 by (simp only: l8)
  show "cnt 8 ''000001000'' = (14232, 10176, 5184)"
    unfolding n8 by (simp only: l8)
  show "cnt 8 ''000000100'' = (14652, 7896, 5184)"
    unfolding n8 by (simp only: l8)
  show "cnt 8 ''000000010'' = (14232, 10176, 5184)"
    unfolding n8 by (simp only: l8)
  show "cnt 8 ''000000001'' = (14652, 7896, 5184)"
    unfolding n8 by (simp only: l8)
  show "cnt 7 ''102000000'' = (1832, 1132, 576)"
    unfolding n7 by (simp only: l7)
qed

lemma length_total:
  "length ps = (case sum3 (map (\<lambda>p. outcome3 (last p)) ps) of (a, b, c) \<Rightarrow> a + b + c)"
  by (induction ps) (auto simp: outcome3_def split: prod.splits)

lemma zeros_start: "zeros ''000000000'' = 9"
  by (simp add: zeros_def)

section \<open>The counting loop of phase 2\<close>

lemma set_add_set: "set (set_add x xs) = insert x (set xs)"
  by (auto simp: set_add_def)

lemma set_add_distinct: "distinct xs \<Longrightarrow> distinct (set_add x xs)"
  by (auto simp: set_add_def)

lemma outcome3_cases:
  "outcome3 b = (1, 0, 0) \<and> wins b ''1'' \<or>
   outcome3 b = (0, 1, 0) \<and> \<not> wins b ''1'' \<and> wins b ''2'' \<or>
   outcome3 b = (0, 0, 1) \<and> \<not> wins b ''1'' \<and> \<not> wins b ''2''"
  by (simp add: outcome3_def)

lemma count_game_result:
  assumes "9 \<le> length final"
  shows "\<exists>cs'. count_game final game cs = Inr cs' \<and>
     set (interim_states cs') = set (interim_states cs) \<union> set game \<and>
     (distinct (interim_states cs) \<longrightarrow> distinct (interim_states cs')) \<and>
     (\<forall>x. tally cs' x = add3 (tally cs x) (scale3 (count_list game x) (outcome3 final)))"
proof (induction game arbitrary: cs)
  case Nil
  show ?case by (cases "outcome3 final") (simp add: tally_def)
next
  case (Cons s game)
  let ?i = "set_add s (interim_states cs)"
  consider (one) "wins final ''1''" | (two) "\<not> wins final ''1''" "wins final ''2''"
    | (draw) "\<not> wins final ''1''" "\<not> wins final ''2''" by blast
  then show ?case
  proof cases
    case one
    let ?cs = "cs\<lparr>interim_states := ?i, p1_win_counter := counter_update s (p1_win_counter cs)\<rparr>"
    from Cons [of ?cs] obtain cs' where r: "count_game final game ?cs = Inr cs'"
      and i: "set (interim_states cs') = set (interim_states ?cs) \<union> set game"
      and d: "distinct (interim_states ?cs) \<longrightarrow> distinct (interim_states cs')"
      and t: "\<forall>x. tally cs' x = add3 (tally ?cs x) (scale3 (count_list game x) (outcome3 final))"
      by blast
    from one have o: "outcome3 final = (1, 0, 0)" by (simp add: outcome3_def)
    show ?thesis
      using r i d t one assms
      by (auto simp: winning_state_wins set_add_set set_add_distinct tally_def o counter_update_def)
  next
    case two
    let ?cs = "cs\<lparr>interim_states := ?i, p2_win_counter := counter_update s (p2_win_counter cs)\<rparr>"
    from Cons [of ?cs] obtain cs' where r: "count_game final game ?cs = Inr cs'"
      and i: "set (interim_states cs') = set (interim_states ?cs) \<union> set game"
      and d: "distinct (interim_states ?cs) \<longrightarrow> distinct (interim_states cs')"
      and t: "\<forall>x. tally cs' x = add3 (tally ?cs x) (scale3 (count_list game x) (outcome3 final))"
      by blast
    from two have o: "outcome3 final = (0, 1, 0)" by (simp add: outcome3_def)
    show ?thesis
      using r i d t two assms
      by (auto simp: winning_state_wins set_add_set set_add_distinct tally_def o counter_update_def)
  next
    case draw
    let ?cs = "cs\<lparr>interim_states := ?i, draw_counter := counter_update s (draw_counter cs)\<rparr>"
    from Cons [of ?cs] obtain cs' where r: "count_game final game ?cs = Inr cs'"
      and i: "set (interim_states cs') = set (interim_states ?cs) \<union> set game"
      and d: "distinct (interim_states ?cs) \<longrightarrow> distinct (interim_states cs')"
      and t: "\<forall>x. tally cs' x = add3 (tally ?cs x) (scale3 (count_list game x) (outcome3 final))"
      by blast
    from draw have o: "outcome3 final = (0, 0, 1)" by (simp add: outcome3_def)
    show ?thesis
      using r i d t draw assms
      by (auto simp: winning_state_wins set_add_set set_add_distinct tally_def o counter_update_def)
  qed
qed

lemma count_games_result:
  assumes "\<forall>g \<in> set games. playable g"
  shows "\<exists>cs'. count_games games cs = Inr cs' \<and>
     set (interim_states cs') = set (interim_states cs) \<union> \<Union> (set ` set games) \<and>
     (distinct (interim_states cs) \<longrightarrow> distinct (interim_states cs')) \<and>
     (\<forall>x. tally cs' x = add3 (tally cs x) (tally_of games x))"
  using assms
proof (induction games arbitrary: cs)
  case Nil
  show ?case by (simp add: tally_of_def)
next
  case (Cons g games)
  then have g: "g \<noteq> []" "9 \<le> length (last g)" by (simp_all add: playable_def)
  from count_game_result [OF g(2), of g cs] obtain cs1 where
    r1: "count_game (last g) g cs = Inr cs1"
    and i1: "set (interim_states cs1) = set (interim_states cs) \<union> set g"
    and d1: "distinct (interim_states cs) \<longrightarrow> distinct (interim_states cs1)"
    and t1: "\<forall>x. tally cs1 x = add3 (tally cs x) (scale3 (count_list g x) (outcome3 (last g)))"
    by blast
  from Cons.prems have "\<forall>g \<in> set games. playable g" by simp
  from Cons.IH [OF this, of cs1] obtain cs' where
    r: "count_games games cs1 = Inr cs'"
    and i: "set (interim_states cs') = set (interim_states cs1) \<union> \<Union> (set ` set games)"
    and d: "distinct (interim_states cs1) \<longrightarrow> distinct (interim_states cs')"
    and t: "\<forall>x. tally cs' x = add3 (tally cs1 x) (tally_of games x)"
    by blast
  show ?case
    using g r1 i1 d1 t1 r i d t
    by (auto simp: last_item_def tally_of_def add3_assoc)
qed


lemma tally_of_Nil [simp]: "tally_of [] x = (0, 0, 0)"
  by (simp add: tally_of_def)

lemma tally_of_Cons:
  "tally_of (g # games) x = add3 (scale3 (count_list g x) (outcome3 (last g))) (tally_of games x)"
  by (simp add: tally_of_def)

lemma tally_of_append: "tally_of (gs @ hs) x = add3 (tally_of gs x) (tally_of hs x)"
  by (simp add: tally_of_def sum3_append)

lemma tally_of_concat: "tally_of (concat gss) x = sum3 (map (\<lambda>gs. tally_of gs x) gss)"
  by (induction gss) (simp_all add: tally_of_append)


lemma total3_add3: "total3 (add3 s t) = total3 s + total3 t"
  by (cases s; cases t) simp

lemma total3_scale3: "total3 (scale3 n t) = n * total3 t"
  by (cases t) (simp add: algebra_simps)

lemma total3_outcome3: "total3 (outcome3 b) = 1"
  by (simp add: outcome3_def)

lemma tally_of_positive:
  "g \<in> set games \<Longrightarrow> x \<in> set g \<Longrightarrow> 1 \<le> total3 (tally_of games x)"
proof (induction games)
  case Nil
  then show ?case by simp
next
  case (Cons h games)
  show ?case
  proof (cases "g = h")
    case True
    with Cons.prems have "1 \<le> count_list h x"
      using count_list_0_iff [of h x] by (cases "count_list h x") auto
    then show ?thesis
      by (simp add: tally_of_Cons total3_add3 total3_scale3 total3_outcome3)
  next
    case False
    with Cons have "1 \<le> total3 (tally_of games x)" by simp
    then show ?thesis by (simp add: tally_of_Cons total3_add3)
  qed
qed

lemma scale3_add: "add3 (scale3 m v) (scale3 n v) = scale3 (m + n) v"
  by (cases v) (simp add: algebra_simps)

lemma scale3_0 [simp]: "scale3 0 v = (0, 0, 0)"
  by (cases v) simp

lemma scale3_1 [simp]: "scale3 (Suc 0) v = v"
  by (cases v) simp

lemma sum3_multiples:
  "\<forall>m \<in> set ms. \<exists>N. f m = scale3 N v \<Longrightarrow> \<exists>N. sum3 (map f ms) = scale3 N v"
proof (induction ms)
  case Nil
  have "sum3 (map f []) = scale3 0 v" by simp
  then show ?case by blast
next
  case (Cons m ms)
  then obtain N M where "f m = scale3 N v" "sum3 (map f ms) = scale3 M v" by auto
  then have "sum3 (map f (m # ms)) = scale3 (N + M) v" by (simp add: scale3_add)
  then show ?case by blast
qed

lemma cnt_finished: "finished b \<Longrightarrow> cnt n b = outcome3 b"
  by (cases n) simp_all

lemma tally_of_map_cons:
  "tally_of (map ((#) b) (paths n m)) x =
     add3 (scale3 (if x = b then 1 else 0) (cnt n m)) (tally_of (paths n m) x)"
proof -
  have "tally_of (map ((#) b) ps) x =
        add3 (scale3 (if x = b then 1 else 0) (sum3 (map (\<lambda>p. outcome3 (last p)) ps)))
          (tally_of ps x)" if "\<forall>p \<in> set ps. p \<noteq> []" for ps
    using that
  proof (induction ps)
    case Nil
    show ?case by simp
  next
    case (Cons p ps)
    obtain a1 a2 a3 where o: "outcome3 (last p) = (a1, a2, a3)" by (cases "outcome3 (last p)")
    obtain s1 s2 s3 where s: "sum3 (map (\<lambda>p. outcome3 (last p)) ps) = (s1, s2, s3)"
      by (cases "sum3 (map (\<lambda>p. outcome3 (last p)) ps)")
    obtain t1 t2 t3 where t: "tally_of ps x = (t1, t2, t3)" by (cases "tally_of ps x")
    from Cons show ?case by (simp add: tally_of_Cons o s t algebra_simps)
  qed
  moreover have "\<forall>p \<in> set (paths n m). p \<noteq> []" using paths_head by blast
  ultimately show ?thesis by (simp add: cnt_paths)
qed

lemma tally_of_paths_Suc:
  assumes "\<not> finished b"
  shows "tally_of (paths (Suc n) b) x =
     add3 (scale3 (if x = b then 1 else 0) (cnt (Suc n) b))
       (sum3 (map (\<lambda>m. tally_of (paths n m) x) (moves b)))"
proof -
  have split: "sum3 (map (\<lambda>m. add3 (scale3 k (f m)) (g m)) ms) =
               add3 (scale3 k (sum3 (map f ms))) (sum3 (map g ms))" for k f g and ms :: "string list"
  proof (induction ms)
    case Nil
    show ?case by simp
  next
    case (Cons m ms)
    obtain a1 a2 a3 where a: "f m = (a1, a2, a3)" by (cases "f m")
    obtain b1 b2 b3 where b: "g m = (b1, b2, b3)" by (cases "g m")
    obtain c1 c2 c3 where c: "sum3 (map f ms) = (c1, c2, c3)" by (cases "sum3 (map f ms)")
    obtain d1 d2 d3 where d: "sum3 (map g ms) = (d1, d2, d3)" by (cases "sum3 (map g ms)")
    from Cons show ?case by (simp add: a b c d algebra_simps)
  qed
  from assms have "tally_of (paths (Suc n) b) x =
        sum3 (map (\<lambda>m. tally_of (map ((#) b) (paths n m)) x) (moves b))"
    by (simp add: tally_of_concat comp_def)
  also have "\<dots> = sum3 (map (\<lambda>m. add3 (scale3 (if x = b then 1 else 0) (cnt n m))
                        (tally_of (paths n m) x)) (moves b))"
    by (simp only: tally_of_map_cons)
  also have "\<dots> = add3 (scale3 (if x = b then 1 else 0) (sum3 (map (cnt n) (moves b))))
                      (sum3 (map (\<lambda>m. tally_of (paths n m) x) (moves b)))"
    by (rule split)
  finally show ?thesis using assms by simp
qed

lemma tally_of_paths_multiple:
  "zeros b = n \<Longrightarrow> \<exists>N. tally_of (paths n b) x = scale3 N (cnt (zeros x) x)"
proof (induction n arbitrary: b)
  case 0
  show ?case
  proof (cases "x = b")
    case True
    with 0 have "tally_of (paths 0 b) x = scale3 1 (cnt (zeros x) x)"
      by (simp add: tally_of_Cons)
    then show ?thesis by blast
  next
    case False
    then have "tally_of (paths 0 b) x = scale3 0 (cnt (zeros x) x)"
      by (simp add: tally_of_Cons)
    then show ?thesis by blast
  qed
next
  case (Suc n)
  show ?case
  proof (cases "finished b")
    case True
    show ?thesis
    proof (cases "x = b")
      case True
      with \<open>finished b\<close> have "tally_of (paths (Suc n) b) x = scale3 1 (cnt (zeros x) x)"
        by (simp add: tally_of_Cons cnt_finished)
      then show ?thesis by blast
    next
      case False
      with \<open>finished b\<close> have "tally_of (paths (Suc n) b) x = scale3 0 (cnt (zeros x) x)"
        by (simp add: tally_of_Cons)
      then show ?thesis by blast
    qed
  next
    case False
    have "\<forall>m \<in> set (moves b). \<exists>N. tally_of (paths n m) x = scale3 N (cnt (zeros x) x)"
    proof
      fix m
      assume "m \<in> set (moves b)"
      from zeros_moves [OF this] Suc.prems have "zeros m = n" by simp
      then show "\<exists>N. tally_of (paths n m) x = scale3 N (cnt (zeros x) x)" by (rule Suc.IH)
    qed
    from sum3_multiples [OF this] obtain M where
      M: "sum3 (map (\<lambda>m. tally_of (paths n m) x) (moves b)) = scale3 M (cnt (zeros x) x)"
      by blast
    show ?thesis
    proof (cases "x = b")
      case True
      with Suc.prems have c: "cnt (Suc n) b = cnt (zeros x) x" by simp
      have "tally_of (paths (Suc n) b) x =
            add3 (scale3 1 (cnt (zeros x) x)) (scale3 M (cnt (zeros x) x))"
        unfolding tally_of_paths_Suc [OF False] M c using True by simp
      then have "tally_of (paths (Suc n) b) x = scale3 (1 + M) (cnt (zeros x) x)"
        by (simp only: scale3_add)
      then show ?thesis by blast
    next
      case False
      then have "tally_of (paths (Suc n) b) x = scale3 M (cnt (zeros x) x)"
        unfolding tally_of_paths_Suc [OF \<open>\<not> finished b\<close>] M by simp
      then show ?thesis by blast
    qed
  qed
qed

section \<open>The boards that occur in a game\<close>

lemma reachable_length: "reachable b \<Longrightarrow> length b = 9"
proof (induction rule: reachable.induct)
  case start
  show ?case by simp
next
  case (move b ms m)
  then show ?case by (simp add: get_possible_moves_moves) (auto dest: moves_length)
qed

lemma reachable_moves: "reachable b \<Longrightarrow> m \<in> set (moves b) \<Longrightarrow> reachable m"
  using reachable_length [of b] get_possible_moves_moves [of b] by (auto intro: reachable.move)

lemma distinct_moves: "distinct (moves b)"
proof -
  let ?is = "filter (\<lambda>i. i < length b \<and> b ! i = CHR ''0'') [0..<9]"
  have "inj_on (\<lambda>i. b[i := mark b]) (set ?is)"
  proof (rule inj_onI)
    fix i j
    assume i: "i \<in> set ?is" and j: "j \<in> set ?is" and eq: "b[i := mark b] = b[j := mark b]"
    show "i = j"
    proof (rule ccontr)
      assume "i \<noteq> j"
      with i have "b[j := mark b] ! i = CHR ''0''" by simp
      moreover from i have "b[i := mark b] ! i = mark b" by simp
      ultimately show False using eq mark_not_empty [of b] by simp
    qed
  qed
  then show ?thesis by (simp add: moves_def distinct_map)
qed

lemma wins_moves:
  assumes "wins b [q]" "q \<noteq> CHR ''0''" "m \<in> set (moves b)"
  shows "wins m [q]"
proof -
  from assms(3) obtain i where i: "b ! i = CHR ''0''" and m: "m = b[i := mark b]"
    by (auto simp: moves_def)
  have keep: "m ! j = q" if "b ! j = q" for j
    using that i assms(2) m by (cases "j = i") auto
  from assms(1) obtain l where l: "l \<in> set winning_lines" and f: "line_full b [q] l"
    by (auto simp: wins_def list_ex_iff)
  from f have "line_full m [q] l" by (auto simp: line_full_def keep split: prod.splits)
  with l show ?thesis by (auto simp: wins_def list_ex_iff)
qed

lemma finished_moves: "finished b \<Longrightarrow> m \<in> set (moves b) \<Longrightarrow> finished m"
  unfolding finished_def using wins_moves [of b _ m] by auto

lemma paths_nonempty: "length b = 9 \<Longrightarrow> n \<le> zeros b \<Longrightarrow> paths n b \<noteq> []"
proof (induction n arbitrary: b)
  case 0
  show ?case by simp
next
  case (Suc n)
  show ?case
  proof (cases "finished b")
    case True
    then show ?thesis by simp
  next
    case False
    from Suc.prems have "moves b \<noteq> []" by (intro zeros_pos_moves) auto
    then obtain m where m: "m \<in> set (moves b)" by (cases "moves b") auto
    from zeros_moves [OF m] moves_length [OF m] Suc.prems have "paths n m \<noteq> []"
      by (intro Suc.IH) auto
    then obtain p where "p \<in> set (paths n m)" by (cases "paths n m") auto
    with m have in_paths: "b # p \<in> set (paths (Suc n) b)" using False by auto
    show ?thesis
    proof
      assume "paths (Suc n) b = []"
      with in_paths show False by (simp only: list.set empty_iff)
    qed
  qed
qed

lemma visited_start: "paths n b \<noteq> [] \<Longrightarrow> b \<in> visited n b"
proof -
  assume "paths n b \<noteq> []"
  then obtain p where p: "p \<in> set (paths n b)" by (cases "paths n b") auto
  from paths_head [OF p] have "b \<in> set p" by (cases p) auto
  with p show ?thesis by (auto simp: visited_def)
qed

lemma visited_Suc:
  "\<not> finished b \<Longrightarrow>
   visited (Suc n) b = (if \<forall>m \<in> set (moves b). paths n m = [] then {} else {b}) \<union>
     (\<Union>m \<in> set (moves b). visited n m)"
  by (auto simp: visited_def)

lemma visited_closed:
  "length b = 9 \<Longrightarrow> zeros b = n \<Longrightarrow> x \<in> visited n b \<Longrightarrow> \<not> finished x \<Longrightarrow>
   m \<in> set (moves x) \<Longrightarrow> m \<in> visited n b"
proof (induction n arbitrary: b)
  case 0
  then have "x = b" by (simp add: visited_def)
  with 0 zeros_0_moves [of b] show ?case by simp
next
  case (Suc n)
  show ?case
  proof (cases "finished b")
    case True
    with Suc.prems show ?thesis by (simp add: visited_def)
  next
    case False
    have sub: "k \<in> visited n c" if "c \<in> set (moves b)" "k \<in> visited n c \<or> k = c" for k c
    proof -
      from that(1) have "length c = 9" "zeros c = n"
        using moves_length [of c b] zeros_moves [of c b] Suc.prems by auto
      then have "c \<in> visited n c" by (intro visited_start paths_nonempty) auto
      with that(2) show ?thesis by auto
    qed
    from Suc.prems(3) False consider "x = b" | c where "c \<in> set (moves b)" "x \<in> visited n c"
      by (auto simp: visited_Suc split: if_splits)
    then show ?thesis
    proof cases
      case 1
      with Suc.prems have "m \<in> set (moves b)" by simp
      with sub [of m m] have "m \<in> visited n m" by simp
      with \<open>m \<in> set (moves b)\<close> False show ?thesis by (auto simp: visited_Suc)
    next
      case 2
      from 2(1) have "length c = 9" "zeros c = n"
        using moves_length [of c b] zeros_moves [of c b] Suc.prems by auto
      from Suc.IH [OF this 2(2) Suc.prems(4,5)] 2(1) False show ?thesis
        by (auto simp: visited_Suc)
    qed
  qed
qed

lemma visited_reachable: "reachable b \<Longrightarrow> x \<in> visited n b \<Longrightarrow> reachable x"
proof (induction n arbitrary: b)
  case 0
  then show ?case by (simp add: visited_def)
next
  case (Suc n)
  show ?case
  proof (cases "finished b")
    case True
    with Suc.prems show ?thesis by (simp add: visited_def)
  next
    case False
    with Suc.prems(2) consider "x = b" | c where "c \<in> set (moves b)" "x \<in> visited n c"
      by (auto simp: visited_Suc split: if_splits)
    then show ?thesis
    proof cases
      case 1
      with Suc.prems show ?thesis by simp
    next
      case 2
      from reachable_moves [OF Suc.prems(1) 2(1)] 2(2) show ?thesis by (rule Suc.IH)
    qed
  qed
qed

lemma start_visited: "''000000000'' \<in> visited 9 ''000000000''"
  by (intro visited_start paths_nonempty) (simp_all add: zeros_start)

lemma reachable_visited: "reachable x \<Longrightarrow> finished x \<or> x \<in> visited 9 ''000000000''"
proof (induction rule: reachable.induct)
  case start
  show ?case using start_visited by simp
next
  case (move b ms m)
  from move(1) have len: "length b = 9" by (rule reachable_length)
  with move have m: "m \<in> set (moves b)" by (simp add: get_possible_moves_moves)
  show ?case
  proof (cases "finished b")
    case True
    with m show ?thesis by (auto intro: finished_moves)
  next
    case False
    with move.IH have "b \<in> visited 9 ''000000000''" by simp
    from visited_closed [OF _ _ this False m] show ?thesis by (simp add: zeros_start)
  qed
qed

lemma visited_iff:
  "\<not> finished x \<Longrightarrow> x \<in> visited 9 ''000000000'' \<longleftrightarrow> reachable x"
  using reachable_visited [of x] visited_reachable [OF reachable.start, of x 9] by auto

section \<open>The probabilities and the table, in closed form\<close>

lemma state_probabilities_ok:
  "0 < total3 (tally cs x) \<Longrightarrow> state_probabilities cs x = Inr (probs_of (tally cs x))"
  by (simp add: state_probabilities_def tally_def py_div_def Let_def)

lemma probabilities_loop_ok:
  "\<forall>x \<in> set xs. 0 < total3 (tally cs x) \<Longrightarrow>
   \<exists>op'. probabilities_loop cs xs op = Inr op' \<and>
     (\<forall>y. op' y = (if y \<in> set xs then Some (probs_of (tally cs y)) else op y))"
proof (induction xs arbitrary: op)
  case Nil
  show ?case by simp
next
  case (Cons x xs)
  then have x: "state_probabilities cs x = Inr (probs_of (tally cs x))"
    by (simp add: state_probabilities_ok)
  from Cons.prems have "\<forall>x \<in> set xs. 0 < total3 (tally cs x)" by simp
  from Cons.IH [OF this, of "op(x \<mapsto> probs_of (tally cs x))"] obtain op' where
    "probabilities_loop cs xs (op(x \<mapsto> probs_of (tally cs x))) = Inr op'"
    "\<forall>y. op' y = (if y \<in> set xs then Some (probs_of (tally cs y))
                  else (op(x \<mapsto> probs_of (tally cs x))) y)"
    by blast
  then show ?case by (auto simp: x)
qed

lemma update_fresh: "k \<notin> fst ` set acc \<Longrightarrow> AList.update k v acc = acc @ [(k, v)]"
  by (induction acc) auto

lemma moves_data_loop_ok:
  "\<forall>m \<in> set ms. op m \<noteq> None \<Longrightarrow> distinct ms \<Longrightarrow> set ms \<inter> fst ` set acc = {} \<Longrightarrow>
   moves_data_loop op ms acc = Inr (acc @ map (\<lambda>m. (m, the (op m))) ms)"
proof (induction ms arbitrary: acc)
  case Nil
  show ?case by simp
next
  case (Cons m ms)
  then obtain p where p: "op m = Some p" by auto
  from Cons.prems have fresh: "m \<notin> fst ` set acc" by auto
  have "moves_data_loop op ms (acc @ [(m, p)]) =
        Inr ((acc @ [(m, p)]) @ map (\<lambda>m. (m, the (op m))) ms)"
    using Cons.prems by (intro Cons.IH) auto
  then show ?case by (simp add: p update_fresh [OF fresh])
qed

lemma database_loop_ok:
  assumes "\<forall>x \<in> set xs. length x = 9 \<and> (\<not> finished x \<longrightarrow> (\<forall>m \<in> set (moves x). op m \<noteq> None))"
  shows "\<exists>db'. database_loop op xs db = Inr db' \<and>
     (\<forall>y. db' y = (if y \<in> set xs \<and> \<not> finished y
                    then Some (map (\<lambda>m. (m, the (op m))) (moves y)) else db y))"
  using assms
proof (induction xs arbitrary: db)
  case Nil
  show ?case by simp
next
  case (Cons x xs)
  then have len: "9 \<le> length x" by simp
  from Cons.prems have rest:
    "\<forall>x \<in> set xs. length x = 9 \<and> (\<not> finished x \<longrightarrow> (\<forall>m \<in> set (moves x). op m \<noteq> None))"
    by simp
  show ?case
  proof (cases "finished x")
    case True
    from Cons.IH [OF rest, of db] obtain db' where
      "database_loop op xs db = Inr db'"
      "\<forall>y. db' y = (if y \<in> set xs \<and> \<not> finished y
                    then Some (map (\<lambda>m. (m, the (op m))) (moves y)) else db y)"
      by blast
    with True len show ?thesis
      by (auto simp: winning_state_wins finished_def)
  next
    case False
    let ?d = "map (\<lambda>m. (m, the (op m))) (moves x)"
    from False Cons.prems have "\<forall>m \<in> set (moves x). op m \<noteq> None" by simp
    then have d: "moves_data_loop op (moves x) [] = Inr ?d"
      using moves_data_loop_ok [of "moves x" op "[]"] distinct_moves by simp
    from Cons.IH [OF rest, of "db(x \<mapsto> ?d)"] obtain db' where
      "database_loop op xs (db(x \<mapsto> ?d)) = Inr db'"
      "\<forall>y. db' y = (if y \<in> set xs \<and> \<not> finished y
                    then Some (map (\<lambda>m. (m, the (op m))) (moves y)) else (db(x \<mapsto> ?d)) y)"
      by blast
    with False len d show ?thesis
      by (auto simp: winning_state_wins finished_def get_possible_moves_moves)
  qed
qed

lemma counted_ok:
  "\<exists>cs. counted = Inr cs \<and> set (interim_states cs) = visited 9 ''000000000'' \<and>
     distinct (interim_states cs) \<and> (\<forall>x. tally cs x = final_tally x)"
proof -
  have "\<forall>g \<in> set (paths 9 ''000000000''). playable g"
    using paths_playable [of "''000000000''" _ 9] by simp
  from count_games_result [OF this, of no_counts] obtain cs where
    "count_games (paths 9 ''000000000'') no_counts = Inr cs"
    "set (interim_states cs) = set (interim_states no_counts) \<union> \<Union> (set ` set (paths 9 ''000000000''))"
    "distinct (interim_states no_counts) \<longrightarrow> distinct (interim_states cs)"
    "\<forall>x. tally cs x = add3 (tally no_counts x) (tally_of (paths 9 ''000000000'') x)"
    by blast
  then show ?thesis
    by (simp add: counted_def possible_games_paths no_counts_def visited_def final_tally_def
        tally_def)
qed

lemma final_tally_positive:
  assumes "x \<in> visited 9 ''000000000''"
  shows "1 \<le> total3 (final_tally x)"
proof -
  from assms obtain g where "g \<in> set (paths 9 ''000000000'')" "x \<in> set g"
    by (auto simp: visited_def)
  then show ?thesis unfolding final_tally_def by (rule tally_of_positive)
qed

lemma outcome_probabilities_ok: "outcome_probabilities = Inr table_probs"
proof -
  from counted_ok obtain cs where cs: "counted = Inr cs"
    "set (interim_states cs) = visited 9 ''000000000''" "\<forall>x. tally cs x = final_tally x"
    by blast
  have "\<forall>x \<in> set (interim_states cs). 0 < total3 (tally cs x)"
    using cs final_tally_positive by fastforce
  from probabilities_loop_ok [OF this, of Map.empty] obtain op' where
    r: "probabilities_loop cs (interim_states cs) Map.empty = Inr op'"
    and v: "\<forall>y. op' y = (if y \<in> set (interim_states cs) then Some (probs_of (tally cs y))
                  else None)"
    by auto
  from v cs have "op' = table_probs" by (intro ext) (simp add: table_probs_def)
  with r show ?thesis unfolding outcome_probabilities_def cs(1) by simp
qed

lemma visited_length: "x \<in> visited 9 ''000000000'' \<Longrightarrow> length x = 9"
  unfolding visited_def using paths_length [of _ 9 "''000000000''" x] by auto

lemma ai_player_database_ok: "ai_player_database = Inr table"
proof -
  from counted_ok obtain cs where cs: "counted = Inr cs"
    "set (interim_states cs) = visited 9 ''000000000''" by blast
  have "\<forall>x \<in> set (interim_states cs).
          length x = 9 \<and> (\<not> finished x \<longrightarrow> (\<forall>m \<in> set (moves x). table_probs m \<noteq> None))"
    using cs(2) visited_length visited_closed [of "''000000000''" 9]
    by (auto simp: table_probs_def zeros_start)
  from database_loop_ok [OF this, of Map.empty] obtain db' where
    r: "database_loop table_probs (interim_states cs) Map.empty = Inr db'"
    and v: "\<forall>y. db' y = (if y \<in> set (interim_states cs) \<and> \<not> finished y
                  then Some (map (\<lambda>m. (m, the (table_probs m))) (moves y)) else None)"
    by auto
  have "db' = table"
  proof (rule ext)
    fix y
    show "db' y = table y"
    proof (cases "y \<in> visited 9 ''000000000'' \<and> \<not> finished y")
      case True
      then have "\<forall>m \<in> set (moves y). m \<in> visited 9 ''000000000''"
        using visited_closed [of "''000000000''" 9 y] by (auto simp: zeros_start)
      then have "map (\<lambda>m. (m, the (table_probs m))) (moves y) =
                 map (\<lambda>m. (m, probs_of (final_tally m))) (moves y)"
        by (intro map_cong) (auto simp: table_probs_def)
      with True v cs(2) show ?thesis by (simp add: table_def)
    next
      case False
      with v cs(2) show ?thesis by (auto simp: table_def)
    qed
  qed
  with r show ?thesis
    unfolding ai_player_database_def cs(1) outcome_probabilities_ok by simp
qed

section \<open>Rounding\<close>


lemma round_half_even_fraction:
  assumes "0 < b"
  shows "round_half_even (of_int a / of_int b) = nearest a b"
proof -
  have fl: "\<lfloor>(of_int a :: rat) / of_int b\<rfloor> = a div b"
    by (simp add: floor_divide_of_int_eq)
  have "(of_int a :: rat) = of_int (a div b) * of_int b + of_int (a mod b)"
    by (metis div_mult_mod_eq of_int_add of_int_mult)
  with assms have fr: "(of_int a :: rat) / of_int b - of_int (a div b) = of_int (a mod b) / of_int b"
    by (simp add: field_simps)
  have lt: "(of_int (a mod b) :: rat) / of_int b < 1 / 2 \<longleftrightarrow> 2 * (a mod b) < b"
  proof -
    have "(of_int (a mod b) :: rat) / of_int b < 1 / 2 \<longleftrightarrow>
          (of_int (2 * (a mod b)) :: rat) < of_int b"
      using assms by (simp add: field_simps)
    then show ?thesis by (simp only: of_int_less_iff)
  qed
  have gt: "1 / 2 < (of_int (a mod b) :: rat) / of_int b \<longleftrightarrow> b < 2 * (a mod b)"
  proof -
    have "1 / 2 < (of_int (a mod b) :: rat) / of_int b \<longleftrightarrow>
          (of_int b :: rat) < of_int (2 * (a mod b))"
      using assms by (simp add: field_simps)
    then show ?thesis by (simp only: of_int_less_iff)
  qed
  show ?thesis
    unfolding round_half_even_def Let_def fl fr lt gt nearest_def by simp
qed

lemma shift_up_scale: "0 < N \<Longrightarrow> shift_up (N * n) (N * d) = shift_up n d"
proof (induction n d rule: shift_up.induct)
  case (1 n d)
  show ?case
  proof (cases "n = 0 \<or> d \<le> n")
    case True
    with 1(2) show ?thesis by (simp add: shift_up.simps [of n d] shift_up.simps [of "N * n" "N * d"])
  next
    case False
    with 1 have "shift_up (N * (2 * n)) (N * d) = shift_up (2 * n) d" by simp
    moreover have "N * (2 * n) = 2 * (N * n)" by simp
    ultimately have "shift_up (2 * (N * n)) (N * d) = shift_up (2 * n) d" by simp
    with False 1(2) show ?thesis
      by (simp add: shift_up.simps [of n d] shift_up.simps [of "N * n" "N * d"])
  qed
qed

lemma shift_down_scale: "0 < N \<Longrightarrow> shift_down (N * n) (N * d) = shift_down n d"
proof (induction n d rule: shift_down.induct)
  case (1 n d)
  show ?case
  proof (cases "d = 0 \<or> n < 2 * d")
    case True
    with 1(2) show ?thesis
      by (simp add: shift_down.simps [of n d] shift_down.simps [of "N * n" "N * d"])
  next
    case False
    with 1 have "shift_down (N * n) (N * (2 * d)) = shift_down n (2 * d)" by simp
    moreover have "N * (2 * d) = 2 * (N * d)" by simp
    ultimately have "shift_down (N * n) (2 * (N * d)) = shift_down n (2 * d)" by simp
    with False 1(2) show ?thesis
      by (simp add: shift_down.simps [of n d] shift_down.simps [of "N * n" "N * d"])
  qed
qed

lemma to_double_scale:
  assumes "0 < N"
  shows "to_double (N * n) (N * d) = to_double n d"
proof -
  have "(of_nat (N * n * 2 ^ k) :: rat) / of_nat (N * d * 2 ^ w) =
        of_nat (n * 2 ^ k) / of_nat (d * 2 ^ w)" for k w
    using assms by simp
  then show ?thesis
    by (simp only: to_double_def shift_up_scale [OF assms] shift_down_scale [OF assms])
qed


lemma to_double_low:
  assumes "n < 2 * d"
  shows "to_double n d =
           of_int (round_half_even (of_nat (n * 2 ^ (52 + shift_up n d)) / of_nat d))
             / 2 ^ (52 + shift_up n d)"
proof -
  from assms have w: "shift_down n d = 0" by (simp add: shift_down.simps [of n d])
  show ?thesis unfolding to_double_def w Let_def by simp
qed

lemma to_double_below:
  assumes "n < 2 * d"
  shows "to_double n d =
           of_int (nearest (int n * 2 ^ (52 + shift_up n d)) (int d)) / 2 ^ (52 + shift_up n d)"
proof -
  from assms have d: "0 < int d" by simp
  have "(of_nat (n * 2 ^ k) :: rat) / of_nat d = of_int (int n * 2 ^ k) / of_int (int d)" for k
    by simp
  then show ?thesis
    by (simp only: to_double_low [OF assms] round_half_even_fraction [OF d])
qed


lemma round5_dyadic:
  "round5 (of_int r / 2 ^ k) = of_int (nearest (r * 100000) (2 ^ k)) / 100000"
proof -
  have "(of_int r :: rat) / 2 ^ k * 100000 = of_int (r * 100000) / of_int (2 ^ k)" by simp
  with round_half_even_fraction [of "2 ^ k" "r * 100000"] show ?thesis
    by (simp only: round5_def) simp
qed


lemma round5_to_double_eval:
  assumes "n < 2 * d" "shift_up n d = u"
    "nearest (int n * 2 ^ (52 + u)) (int d) = r" "nearest (r * 100000) (2 ^ (52 + u)) = p"
  shows "round5 (to_double n d) = of_int p / 100000"
  unfolding to_double_below [OF assms(1)] assms(2) assms(3) round5_dyadic assms(4) ..

text \<open>
  The quotient \<open>1 / 320\<close> is exactly \<open>0.003125\<close>, half way between two decimals; the
  double nearest to it is a little larger, so the rounding goes up, to the odd last
  digit.
\<close>

lemma round5_follows_the_double: "round5 (to_double 1 320) = 313 / 100000"
proof -
  have "round5 (to_double 1 320) = of_int 313 / 100000"
    by (rule round5_to_double_eval [where u = 9 and r = 7205759403792794])
      (simp_all add: shift_up.simps nearest_def)
  then show ?thesis by simp
qed

lemma probs_of_scale3: "0 < N \<Longrightarrow> probs_of (scale3 N v) = probs_of v"
proof -
  assume N: "0 < N"
  obtain a b c where v: "v = (a, b, c)" by (cases v)
  have "N * a + N * b + N * c = N * (a + b + c)" by (simp add: algebra_simps)
  with N show ?thesis by (simp add: v to_double_scale)
qed

lemma final_tally_multiple:
  assumes "x \<in> visited 9 ''000000000''"
  shows "\<exists>N > 0. final_tally x = scale3 N (cnt (zeros x) x)"
proof -
  from tally_of_paths_multiple [of "''000000000''" 9 x] obtain N where
    N: "final_tally x = scale3 N (cnt (zeros x) x)"
    by (auto simp: zeros_start final_tally_def)
  from final_tally_positive [OF assms] N have "N \<noteq> 0" by (cases "N = 0") auto
  with N show ?thesis by auto
qed

lemma table_probs_cnt:
  "x \<in> visited 9 ''000000000'' \<Longrightarrow> probs_of (final_tally x) = probs_of (cnt (zeros x) x)"
  using final_tally_multiple [of x] by (auto simp: probs_of_scale3)



section \<open>The games of phase 1\<close>

lemma legal_play_9:
  "length b = 9 \<Longrightarrow>
   legal_play (b # m # rest) = (\<not> finished b \<and> m \<in> set (moves b) \<and> legal_play (m # rest))"
  by (simp add: winning_state_wins get_possible_moves_moves finished_def)

lemma paths_legal:
  "length b = 9 \<Longrightarrow> g \<in> set (paths n b) \<Longrightarrow> legal_play g"
proof (induction n arbitrary: b g)
  case 0
  then show ?case by simp
next
  case (Suc n)
  show ?case
  proof (cases "finished b")
    case True
    with Suc.prems show ?thesis by simp
  next
    case False
    with Suc.prems obtain m g' where m: "m \<in> set (moves b)" "g' \<in> set (paths n m)" "g = b # g'"
      by auto
    from m(1) Suc.prems(1) have len: "length m = 9" by (simp add: moves_length)
    from Suc.IH [OF len m(2)] have lp: "legal_play g'" .
    from paths_head [OF m(2)] obtain rest where g': "g' = m # rest" by (cases g') auto
    with lp m False Suc.prems(1) show ?thesis by (simp only: legal_play_9) simp
  qed
qed

lemma legal_paths:
  "legal_play g \<Longrightarrow> length (hd g) = 9 \<Longrightarrow> is_terminal (last g) \<Longrightarrow>
   g \<in> set (paths (zeros (hd g)) (hd g))"
proof (induction g rule: legal_play.induct)
  case 1
  then show ?case by simp
next
  case (2 b)
  show ?case
  proof (cases "finished b")
    case True
    then show ?thesis by (simp add: paths_finished)
  next
    case False
    with 2 have "zeros b = 0" by (simp add: is_terminal_def finished_def)
    then show ?thesis by simp
  qed
next
  case (3 b m rest)
  from 3(3) have len: "length b = 9" by simp
  from 3(2) have "\<not> finished b \<and> m \<in> set (moves b) \<and> legal_play (m # rest)"
    by (rule legal_play_9 [OF len, THEN iffD1])
  then have nf: "\<not> finished b" and m: "m \<in> set (moves b)" and lp: "legal_play (m # rest)"
    by simp_all
  from m len have lm: "length (hd (m # rest)) = 9" by (simp add: moves_length)
  from 3(4) have "is_terminal (last (m # rest))" by simp
  from 3(1) [OF lp lm this] have ih: "m # rest \<in> set (paths (zeros m) m)" by simp
  from zeros_moves [OF m] have z: "zeros b = Suc (zeros m)" by simp
  from nf m ih show ?case by (auto simp: z)
qed

lemma distinct_concat_map:
  "distinct xs \<Longrightarrow> (\<And>x. x \<in> set xs \<Longrightarrow> distinct (f x)) \<Longrightarrow>
   (\<And>x y. x \<in> set xs \<Longrightarrow> y \<in> set xs \<Longrightarrow> x \<noteq> y \<Longrightarrow> set (f x) \<inter> set (f y) = {}) \<Longrightarrow>
   distinct (concat (map f xs))"
proof (induction xs)
  case Nil
  show ?case by simp
next
  case (Cons x xs)
  have "distinct (concat (map f xs))"
    by (rule Cons.IH) (use Cons.prems in auto)
  moreover have "distinct (f x)" using Cons.prems(2) by simp
  moreover have "set (f x) \<inter> set (f y) = {}" if "y \<in> set xs" for y
    using Cons.prems(1) Cons.prems(3) [of x y] that by auto
  ultimately show ?case by auto
qed

lemma distinct_paths: "distinct (paths n b)"
proof (induction n arbitrary: b)
  case 0
  show ?case by simp
next
  case (Suc n)
  show ?case
  proof (cases "finished b")
    case True
    then show ?thesis by simp
  next
    case False
    have "distinct (concat (map (\<lambda>m. map ((#) b) (paths n m)) (moves b)))"
    proof (rule distinct_concat_map)
      show "distinct (moves b)" by (rule distinct_moves)
      show "distinct (map ((#) b) (paths n m))" for m
        using Suc.IH [of m] by (simp add: distinct_map)
      show "set (map ((#) b) (paths n x)) \<inter> set (map ((#) b) (paths n y)) = {}"
        if "x \<noteq> y" for x y
        using that paths_head [of _ n x] paths_head [of _ n y] by fastforce
    qed
    with False show ?thesis by simp
  qed
qed

lemma set_paths_complete:
  "set (paths 9 ''000000000'') = {game. complete_game game}"
proof (intro set_eqI iffI)
  fix g
  assume g: "g \<in> set (paths 9 ''000000000'')"
  have "legal_play g" by (rule paths_legal [OF _ g]) simp
  moreover have "hd g = ''000000000''" using paths_head [OF g] by simp
  moreover have "is_terminal (last g)"
    using paths_end [OF g] by (auto simp: zeros_start is_terminal_def finished_def)
  ultimately show "g \<in> {game. complete_game game}" by (simp add: complete_game_def)
next
  fix g
  assume "g \<in> {game. complete_game game}"
  then have g: "legal_play g" "hd g = ''000000000''" "is_terminal (last g)"
    by (simp_all add: complete_game_def)
  from legal_paths [OF g(1) _ g(3)] g(2) show "g \<in> set (paths 9 ''000000000'')"
    by (simp add: zeros_start)
qed

text \<open>
  Claim C1. Phase 1 returns a list without repetition whose elements are exactly
  the complete games: each starts at the empty board, goes from every board that
  is not won to one of its legal moves, and ends in a board that is won or has no
  empty cell; and every such game is in the list. There are exactly 255,168 of
  them; \<^verbatim>\<open>game_outcome\<close> is
  \<^verbatim>\<open>"player 1 wins"\<close> for 131,184 of them, \<^verbatim>\<open>"player 2 wins"\<close> for 77,904 and
  \<^verbatim>\<open>"draw"\<close> for 46,080.
\<close>

theorem all_games_counted:
  "\<exists>games. possible_games = Inr games \<and> distinct games \<and>
     set games = {game. complete_game game} \<and> length games = 255168 \<and>
     length (filter (\<lambda>game. is_terminal (last game)) games) = 255168 \<and>
     num_outcomes ''player 1 wins'' games = Inr 131184 \<and>
     num_outcomes ''player 2 wins'' games = Inr 77904 \<and>
     num_outcomes ''draw'' games = Inr 46080"
proof -
  let ?games = "paths 9 ''000000000''"
  have play: "\<forall>g \<in> set ?games. playable g"
    using paths_playable [of "''000000000''" _ 9] by simp
  have total: "sum3 (map (\<lambda>p. outcome3 (last p)) ?games) = (131184, 77904, 46080)"
    using cnt_table(1) by (simp only: cnt_paths)
  have len: "length ?games = 255168"
    by (simp add: length_total [of ?games] total)
  have "\<forall>g \<in> set ?games. is_terminal (last g)"
    using paths_end [of _ 9 "''000000000''"] by (auto simp: zeros_start is_terminal_def finished_def)
  then have "filter (\<lambda>game. is_terminal (last game)) ?games = ?games"
    by (simp only: filter_True)
  then have all_terminal: "length (filter (\<lambda>game. is_terminal (last game)) ?games) = 255168"
    using len by (simp only:)
  from total have counts:
    "length (filter (\<lambda>p. outcome_label (last p) = ''player 1 wins'') ?games) = 131184"
    "length (filter (\<lambda>p. outcome_label (last p) = ''player 2 wins'') ?games) = 77904"
    "length (filter (\<lambda>p. outcome_label (last p) = ''draw'') ?games) = 46080"
    by (simp_all only: sum3_count prod.inject)
  show ?thesis
  proof (intro exI conjI)
    show "possible_games = Inr ?games" by (rule possible_games_paths)
    show "distinct ?games" by (rule distinct_paths)
    show "set ?games = {game. complete_game game}" by (rule set_paths_complete)
    show "length ?games = 255168" by (rule len)
    show "length (filter (\<lambda>game. is_terminal (last game)) ?games) = 255168"
      by (rule all_terminal)
    show "num_outcomes ''player 1 wins'' ?games = Inr 131184"
      by (simp only: num_outcomes_count [OF play] counts)
    show "num_outcomes ''player 2 wins'' ?games = Inr 77904"
      by (simp only: num_outcomes_count [OF play] counts)
    show "num_outcomes ''draw'' ?games = Inr 46080"
      by (simp only: num_outcomes_count [OF play] counts)
  qed
qed

section \<open>The keys of the table\<close>

lemma moves_eval:
  "length b = 9 \<Longrightarrow>
   moves b = map (\<lambda>i. b[i := mark b]) (filter (\<lambda>i. b ! i = CHR ''0'') [0, 1, 2, 3, 4, 5, 6, 7, 8])"
  using get_possible_moves_moves [of b] get_possible_moves_9 [of b] by (simp add: upt_9)


lemma reachable_drawn: "reachable ''121121212''"
proof -
  have "reachable ''100000000''"
    by (rule reachable_moves [OF reachable.start]) (simp add: moves_eval mark_def)
  then have "reachable ''120000000''"
    by (rule reachable_moves) (simp add: moves_eval mark_def)
  then have "reachable ''121000000''"
    by (rule reachable_moves) (simp add: moves_eval mark_def)
  then have "reachable ''121020000''"
    by (rule reachable_moves) (simp add: moves_eval mark_def)
  then have "reachable ''121021000''"
    by (rule reachable_moves) (simp add: moves_eval mark_def)
  then have "reachable ''121021002''"
    by (rule reachable_moves) (simp add: moves_eval mark_def)
  then have "reachable ''121121002''"
    by (rule reachable_moves) (simp add: moves_eval mark_def)
  then have "reachable ''121121202''"
    by (rule reachable_moves) (simp add: moves_eval mark_def)
  then show ?thesis
    by (rule reachable_moves) (simp add: moves_eval mark_def)
qed

lemma wins_eval:
  "length b = 9 \<Longrightarrow>
   wins b p =
     ([b ! 0] = p \<and> [b ! 1] = p \<and> [b ! 2] = p \<or> [b ! 3] = p \<and> [b ! 4] = p \<and> [b ! 5] = p \<or>
      [b ! 6] = p \<and> [b ! 7] = p \<and> [b ! 8] = p \<or> [b ! 0] = p \<and> [b ! 3] = p \<and> [b ! 6] = p \<or>
      [b ! 1] = p \<and> [b ! 4] = p \<and> [b ! 7] = p \<or> [b ! 2] = p \<and> [b ! 5] = p \<and> [b ! 8] = p \<or>
      [b ! 0] = p \<and> [b ! 4] = p \<and> [b ! 8] = p \<or> [b ! 2] = p \<and> [b ! 4] = p \<and> [b ! 6] = p)"
  by (simp add: wins_def winning_lines_def line_full_def)


lemma not_finished_drawn: "\<not> finished ''121121212''"
  by (simp add: finished_def wins_eval)


lemma visited_drawn: "''121121212'' \<in> visited 9 ''000000000''"
  using reachable_drawn not_finished_drawn by (simp add: visited_iff)

lemma table_dom: "dom table = {b. reachable b \<and> \<not> finished b}"
  using visited_iff by (auto simp: table_def dom_def split: if_splits)

lemma not_finished_iff:
  "length b = 9 \<Longrightarrow>
   \<not> finished b \<longleftrightarrow> winning_state b ''1'' = Inr False \<and> winning_state b ''2'' = Inr False"
  by (simp add: winning_state_wins finished_def)

text \<open>
  Claim C2, as amended. The keys of the table are exactly the boards reachable
  from the empty board by repeated \<^verbatim>\<open>get_possible_moves\<close> on which neither player
  has a winning line. Every reachable board that is not terminal is among them,
  and so is every reachable board that is full without a win.
\<close>

theorem table_keys:
  "\<exists>db. ai_player_database = Inr db \<and>
     dom db = {b. reachable b \<and> winning_state b ''1'' = Inr False \<and>
                  winning_state b ''2'' = Inr False}"
proof -
  have "dom table = {b. reachable b \<and> winning_state b ''1'' = Inr False \<and>
                        winning_state b ''2'' = Inr False}"
    unfolding table_dom using reachable_length not_finished_iff by blast
  with ai_player_database_ok show ?thesis by blast
qed

theorem table_keys_witness:
  "\<exists>db. ai_player_database = Inr db \<and> ''000000000'' \<in> dom db"
proof -
  from table_keys obtain db where db: "ai_player_database = Inr db"
    "dom db = {b. reachable b \<and> winning_state b ''1'' = Inr False \<and>
                 winning_state b ''2'' = Inr False}" by blast
  have "winning_state ''000000000'' ''1'' = Inr False" "winning_state ''000000000'' ''2'' = Inr False"
    by (simp_all add: winning_state_wins wins_eval)
  with db reachable.start show ?thesis by blast
qed

text \<open>
  Claim C2 as stated fails: the full board 121121212 is reached by play and has
  no winning line, so it is terminal, and it is a key of the table.
\<close>

theorem drawn_board_is_key:
  "\<exists>db. ai_player_database = Inr db \<and> ''121121212'' \<in> dom db \<and>
     reachable ''121121212'' \<and> CHR ''0'' \<notin> set ''121121212'' \<and>
     is_terminal ''121121212''"
proof -
  have "''121121212'' \<in> dom table"
    using reachable_drawn not_finished_drawn by (simp add: table_dom)
  moreover have "CHR ''0'' \<notin> set ''121121212''" by simp
  moreover have "is_terminal ''121121212''" by (simp add: is_terminal_def zeros_def)
  ultimately show ?thesis using ai_player_database_ok reachable_drawn by blast
qed

section \<open>Lookups in the table\<close>

lemma next_best_move_empty:
  "database game_state = Some [] \<Longrightarrow> next_best_move database game_state ''win'' = Inl IndexError"
  by (simp add: next_best_move_def last_item_def)

text \<open>
  Claim C10. A board reached by play that is full and has no winning line is a
  key of the table, its dictionary of moves is empty, and \<^verbatim>\<open>next_best_move\<close> on
  it raises (\<^verbatim>\<open>moves_sorted[-1]\<close> on an empty list: an IndexError) instead of
  returning a board.
\<close>

theorem drawn_board_entry:
  "\<exists>db. ai_player_database = Inr db \<and>
     (\<forall>b. reachable b \<and> CHR ''0'' \<notin> set b \<and> winning_state b ''1'' = Inr False \<and>
          winning_state b ''2'' = Inr False \<longrightarrow>
          db b = Some [] \<and> next_best_move db b ''win'' = Inl IndexError)"
proof -
  have "table b = Some [] \<and> next_best_move table b ''win'' = Inl IndexError"
    if b: "reachable b" "CHR ''0'' \<notin> set b" "winning_state b ''1'' = Inr False"
      "winning_state b ''2'' = Inr False" for b
  proof -
    from b(1) have len: "length b = 9" by (rule reachable_length)
    with b(3,4) have nf: "\<not> finished b" by (simp add: not_finished_iff)
    with b(1) have v: "b \<in> visited 9 ''000000000''" by (simp add: visited_iff)
    from len b(2) have "moves b = []" by (simp add: moves_empty_iff)
    with nf v have "table b = Some []" by (simp add: table_def)
    then show ?thesis by (simp add: next_best_move_empty)
  qed
  with ai_player_database_ok show ?thesis by blast
qed

theorem drawn_board_entry_witness:
  "\<exists>db. ai_player_database = Inr db \<and>
     reachable ''121121212'' \<and> CHR ''0'' \<notin> set ''121121212'' \<and>
     winning_state ''121121212'' ''1'' = Inr False \<and>
     winning_state ''121121212'' ''2'' = Inr False \<and>
     db ''121121212'' = Some [] \<and> next_best_move db ''121121212'' ''win'' = Inl IndexError"
proof -
  from drawn_board_entry obtain db where db: "ai_player_database = Inr db"
    and all: "\<forall>b. reachable b \<and> CHR ''0'' \<notin> set b \<and> winning_state b ''1'' = Inr False \<and>
          winning_state b ''2'' = Inr False \<longrightarrow>
          db b = Some [] \<and> next_best_move db b ''win'' = Inl IndexError" by blast
  have h: "reachable ''121121212''" "CHR ''0'' \<notin> set ''121121212''"
    "winning_state ''121121212'' ''1'' = Inr False" "winning_state ''121121212'' ''2'' = Inr False"
    using reachable_drawn by (simp_all add: winning_state_wins wins_eval)
  with all have "db ''121121212'' = Some [] \<and>
    next_best_move db ''121121212'' ''win'' = Inl IndexError" by blast
  with db h show ?thesis by blast
qed

lemma not_key_cases:
  assumes "b \<notin> dom table"
  shows "\<not> reachable b \<or> winning_state b ''1'' = Inr True \<or> winning_state b ''2'' = Inr True"
proof (cases "reachable b")
  case False
  then show ?thesis by simp
next
  case True
  then have len: "length b = 9" by (rule reachable_length)
  from assms True have "finished b" by (simp add: table_dom)
  with len show ?thesis by (simp add: winning_state_wins finished_def)
qed

text \<open>
  Claim C8. \<^verbatim>\<open>next_best_move\<close> on a board that is not a key of the table raises
  the KeyError of the dictionary lookup (the specification's InvalidState),
  whatever the table and the strategy; it returns no board. In the built table a
  board that is not a key is either not reachable from the empty board or won by
  one of the players.
\<close>

theorem next_best_move_missing_key:
  "(game_state \<notin> dom database \<longrightarrow>
      next_best_move database game_state strategy = Inl KeyError) \<and>
   (\<exists>db. ai_player_database = Inr db \<and>
      (\<forall>b. b \<notin> dom db \<longrightarrow>
         (\<not> reachable b \<or> winning_state b ''1'' = Inr True \<or>
          winning_state b ''2'' = Inr True) \<and>
         next_best_move db b strategy = Inl KeyError))"
proof (intro conjI impI)
  show "next_best_move database game_state strategy = Inl KeyError"
    if "game_state \<notin> dom database"
    using that by (auto simp: next_best_move_def dom_def)
  have "next_best_move table b strategy = Inl KeyError" if "b \<notin> dom table" for b
    using that by (auto simp: next_best_move_def dom_def)
  with not_key_cases ai_player_database_ok
  show "\<exists>db. ai_player_database = Inr db \<and>
      (\<forall>b. b \<notin> dom db \<longrightarrow>
         (\<not> reachable b \<or> winning_state b ''1'' = Inr True \<or>
          winning_state b ''2'' = Inr True) \<and>
         next_best_move db b strategy = Inl KeyError)"
    by blast
qed

theorem next_best_move_missing_key_witness:
  "\<exists>db. ai_player_database = Inr db \<and> ''111220000'' \<notin> dom db \<and>
     winning_state ''111220000'' ''1'' = Inr True \<and>
     next_best_move db ''111220000'' ''win'' = Inl KeyError"
proof -
  have f: "finished ''111220000''" by (simp add: finished_def wins_eval)
  then have k: "''111220000'' \<notin> dom table" by (simp add: table_dom)
  have w: "winning_state ''111220000'' ''1'' = Inr True"
    by (simp add: winning_state_wins wins_eval)
  from next_best_move_missing_key [of "''111220000''" table "''win''", THEN conjunct1, THEN mp, OF k]
  have "next_best_move table ''111220000'' ''win'' = Inl KeyError" .
  with k w ai_player_database_ok show ?thesis by blast
qed

lemma counter_total: "total3 (tally cs x) = p1_win_counter cs x + p2_win_counter cs x + draw_counter cs x"
  by (simp add: tally_def)

text \<open>
  Claim C9. The three stages after phase 1 all return: no lookup misses and no
  division has a zero denominator. Every recorded board has a total count of at
  least one, and for a recorded board without a winning line every successor
  returned by \<^verbatim>\<open>get_possible_moves\<close> is recorded, with a total count of at least
  one and an entry of probabilities.
\<close>

theorem successors_recorded:
  "\<exists>cs op db. counted = Inr cs \<and> outcome_probabilities = Inr op \<and> ai_player_database = Inr db \<and>
     (\<forall>b \<in> set (interim_states cs).
        1 \<le> p1_win_counter cs b + p2_win_counter cs b + draw_counter cs b \<and>
        (winning_state b ''1'' = Inr False \<and> winning_state b ''2'' = Inr False \<longrightarrow>
         (\<exists>ms. get_possible_moves b = Inr ms \<and>
            (\<forall>m \<in> set ms. m \<in> set (interim_states cs) \<and>
               1 \<le> p1_win_counter cs m + p2_win_counter cs m + draw_counter cs m \<and>
               op m \<noteq> None))))"
proof -
  from counted_ok obtain cs where cs: "counted = Inr cs"
    "set (interim_states cs) = visited 9 ''000000000''" "\<forall>x. tally cs x = final_tally x"
    by blast
  have pos: "1 \<le> p1_win_counter cs x + p2_win_counter cs x + draw_counter cs x"
    if "x \<in> visited 9 ''000000000''" for x
    using final_tally_positive [OF that] cs(3) counter_total [of cs x] by simp
  have succ: "\<exists>ms. get_possible_moves b = Inr ms \<and>
            (\<forall>m \<in> set ms. m \<in> set (interim_states cs) \<and>
               1 \<le> p1_win_counter cs m + p2_win_counter cs m + draw_counter cs m \<and>
               table_probs m \<noteq> None)"
    if b: "b \<in> visited 9 ''000000000''" "winning_state b ''1'' = Inr False"
      "winning_state b ''2'' = Inr False" for b
  proof -
    from b(1) have len: "length b = 9" by (rule visited_length)
    with b(2,3) have nf: "\<not> finished b" by (simp add: not_finished_iff)
    have "m \<in> visited 9 ''000000000''" if "m \<in> set (moves b)" for m
      using visited_closed [OF _ _ b(1) nf that] by (simp add: zeros_start)
    with len pos cs(2) show ?thesis
      by (auto simp: get_possible_moves_moves table_probs_def)
  qed
  show ?thesis
    using cs(1) outcome_probabilities_ok ai_player_database_ok pos succ cs(2) by blast
qed

theorem successors_recorded_witness:
  "\<exists>cs op db ms. counted = Inr cs \<and> outcome_probabilities = Inr op \<and>
     ai_player_database = Inr db \<and>
     ''000000000'' \<in> set (interim_states cs) \<and>
     winning_state ''000000000'' ''1'' = Inr False \<and>
     winning_state ''000000000'' ''2'' = Inr False \<and>
     get_possible_moves ''000000000'' = Inr ms \<and> ''000010000'' \<in> set ms \<and>
     ''000010000'' \<in> set (interim_states cs) \<and>
     1 \<le> p1_win_counter cs ''000010000'' + p2_win_counter cs ''000010000'' +
          draw_counter cs ''000010000'' \<and>
     op ''000010000'' \<noteq> None"
proof -
  from successors_recorded obtain cs op db where r: "counted = Inr cs"
    "outcome_probabilities = Inr op" "ai_player_database = Inr db"
    and all: "\<forall>b \<in> set (interim_states cs).
        1 \<le> p1_win_counter cs b + p2_win_counter cs b + draw_counter cs b \<and>
        (winning_state b ''1'' = Inr False \<and> winning_state b ''2'' = Inr False \<longrightarrow>
         (\<exists>ms. get_possible_moves b = Inr ms \<and>
            (\<forall>m \<in> set ms. m \<in> set (interim_states cs) \<and>
               1 \<le> p1_win_counter cs m + p2_win_counter cs m + draw_counter cs m \<and>
               op m \<noteq> None)))"
    by blast
  from counted_ok obtain cs' where c: "counted = Inr cs'"
    "set (interim_states cs') = visited 9 ''000000000''" by blast
  from c(1) [symmetric] r(1) have "(Inr cs' :: error + counters) = Inr cs" by (rule trans)
  then have "cs' = cs" by (simp only: sum.inject)
  with c(2) have e: "''000000000'' \<in> set (interim_states cs)"
    using start_visited by simp
  have w: "winning_state ''000000000'' ''1'' = Inr False"
    "winning_state ''000000000'' ''2'' = Inr False"
    by (simp_all add: winning_state_wins wins_eval)
  from all e w obtain ms where ms: "get_possible_moves ''000000000'' = Inr ms"
    and each: "\<forall>m \<in> set ms. m \<in> set (interim_states cs) \<and>
               1 \<le> p1_win_counter cs m + p2_win_counter cs m + draw_counter cs m \<and>
               op m \<noteq> None"
    by blast
  from ms have "''000010000'' \<in> set ms"
    by (simp add: get_possible_moves_moves moves_eval mark_def) auto
  with r e w ms each show ?thesis by blast
qed

section \<open>Tallies and probabilities\<close>









lemma round5_eval:
  assumes "n < 2 * d" "shift_up n d = u"
    "nearest (int n * 2 ^ (52 + u)) (int d) = r" "nearest (r * 100000) (2 ^ (52 + u)) = p"
    "q = of_int p / 100000"
  shows "round5 (to_double n d) = q"
  unfolding assms(5) using assms(1-4) by (rule round5_to_double_eval)





section \<open>The choice of \<^verbatim>\<open>next_best_move\<close>\<close>

lemma last_insort_key:
  fixes f :: "'a \<Rightarrow> rat"
  shows "sorted (map f ys) \<Longrightarrow> ys \<noteq> [] \<Longrightarrow>
         last (insort_key f x ys) = (if f (last ys) < f x then x else last ys)"
proof (induction ys)
  case Nil
  then show ?case by simp
next
  case (Cons y ys)
  show ?case
  proof (cases "ys = []")
    case True
    then show ?thesis by auto
  next
    case False
    from Cons.prems(1) False have le: "f y \<le> f (last ys)" by simp
    from Cons.prems(1) have "sorted (map f ys)" by simp
    from Cons.IH [OF this False] have ih:
      "last (insort_key f x ys) = (if f (last ys) < f x then x else last ys)" .
    have ne: "insort_key f x ys \<noteq> []" by (cases ys) auto
    show ?thesis
    proof (cases "f x \<le> f y")
      case True
      with le False show ?thesis by auto
    next
      case no: False
      with False ne ih show ?thesis by simp
    qed
  qed
qed

lemma sort_key_nonempty: "xs \<noteq> [] \<Longrightarrow> sort_key f xs \<noteq> []"
  by (metis length_sort length_0_conv)

lemma last_sort_key_index:
  fixes f :: "'a \<Rightarrow> rat"
  shows "xs \<noteq> [] \<Longrightarrow>
    \<exists>i < length xs. last (sort_key f xs) = xs ! i \<and>
      (\<forall>j < length xs. f (xs ! j) \<le> f (xs ! i)) \<and>
      (\<forall>j < length xs. i < j \<longrightarrow> f (xs ! j) < f (xs ! i))"
proof (induction xs)
  case Nil
  then show ?case by simp
next
  case (Cons x xs)
  show ?case
  proof (cases "xs = []")
    case True
    then show ?thesis by simp
  next
    case False
    from Cons.IH [OF False] obtain i where i: "i < length xs"
      "last (sort_key f xs) = xs ! i"
      "\<forall>j < length xs. f (xs ! j) \<le> f (xs ! i)"
      "\<forall>j < length xs. i < j \<longrightarrow> f (xs ! j) < f (xs ! i)"
      by blast
    have ne: "sort_key f xs \<noteq> []" using False by (rule sort_key_nonempty)
    have l: "last (sort_key f (x # xs)) = (if f (xs ! i) < f x then x else xs ! i)"
      using last_insort_key [of f "sort_key f xs" x] ne by (simp add: i(2))
    show ?thesis
    proof (cases "f (xs ! i) < f x")
      case True
      have "\<forall>j < length (x # xs). f ((x # xs) ! j) \<le> f ((x # xs) ! 0)"
      proof (intro allI impI)
        fix j assume "j < length (x # xs)"
        then show "f ((x # xs) ! j) \<le> f ((x # xs) ! 0)"
          using True i(3) by (cases j) (auto simp: less_le_trans order.strict_implies_order
              intro: order.trans)
      qed
      moreover have "\<forall>j < length (x # xs). 0 < j \<longrightarrow> f ((x # xs) ! j) < f ((x # xs) ! 0)"
      proof (intro allI impI)
        fix j assume "j < length (x # xs)" "0 < j"
        then obtain j' where "j = Suc j'" "j' < length xs" by (cases j) auto
        with i(3) True show "f ((x # xs) ! j) < f ((x # xs) ! 0)"
          by (auto intro: le_less_trans)
      qed
      moreover have "last (sort_key f (x # xs)) = (x # xs) ! 0" using l True by simp
      ultimately show ?thesis by (intro exI [of _ 0]) simp
    next
      case no: False
      have "\<forall>j < length (x # xs). f ((x # xs) ! j) \<le> f ((x # xs) ! Suc i)"
      proof (intro allI impI)
        fix j assume "j < length (x # xs)"
        then show "f ((x # xs) ! j) \<le> f ((x # xs) ! Suc i)"
          using no i(3) by (cases j) auto
      qed
      moreover have "\<forall>j < length (x # xs). Suc i < j \<longrightarrow> f ((x # xs) ! j) < f ((x # xs) ! Suc i)"
      proof (intro allI impI)
        fix j assume "j < length (x # xs)" "Suc i < j"
        then obtain j' where "j = Suc j'" "j' < length xs" "i < j'" by (cases j) auto
        with i(4) show "f ((x # xs) ! j) < f ((x # xs) ! Suc i)" by simp
      qed
      moreover have "last (sort_key f (x # xs)) = (x # xs) ! Suc i" using l no by simp
      moreover have "Suc i < length (x # xs)" using i(1) by simp
      ultimately show ?thesis by blast
    qed
  qed
qed

lemma moves_and_probs_loop_ok:
  "\<forall>e \<in> set data. snd e data_key \<noteq> None \<Longrightarrow>
   moves_and_probs_loop data_key data = Inr (map (\<lambda>e. (fst e, the (snd e data_key))) data)"
  by (induction data) auto

lemma win_probability_key:
  "win_probability board p = p (''p'' @ current_player board @ ''_wins'')"
  by (simp add: win_probability_def current_player_def)

lemma next_best_move_choice:
  assumes "database board = Some entries" "entries \<noteq> []"
    "\<forall>e \<in> set entries. win_probability board (snd e) \<noteq> None"
  shows "\<exists>i < length entries. \<exists>best.
     next_best_move database board ''win'' = Inr (fst (entries ! i)) \<and>
     win_probability board (snd (entries ! i)) = Some best \<and>
     (\<forall>j < length entries. \<exists>p. win_probability board (snd (entries ! j)) = Some p \<and>
        p \<le> best \<and> (i < j \<longrightarrow> p < best))"
proof -
  let ?key = "''p'' @ current_player board @ ''_wins''"
  let ?mp = "map (\<lambda>e. (fst e, the (snd e ?key))) entries"
  from assms(3) have keys: "\<forall>e \<in> set entries. snd e ?key \<noteq> None"
    by (simp add: win_probability_key)
  from moves_and_probs_loop_ok [OF keys] have loop: "moves_and_probs_loop ?key entries = Inr ?mp" .
  from assms(2) have ne: "?mp \<noteq> []" by simp
  from last_sort_key_index [OF ne, of snd] obtain i where i: "i < length entries"
    "last (sort_key snd ?mp) = ?mp ! i"
    "\<forall>j < length entries. snd (?mp ! j) \<le> snd (?mp ! i)"
    "\<forall>j < length entries. i < j \<longrightarrow> snd (?mp ! j) < snd (?mp ! i)"
    by auto
  have sne: "sort_key snd ?mp \<noteq> []" using ne by (rule sort_key_nonempty)
  have "next_best_move database board ''win'' = Inr (fst (?mp ! i))"
    by (simp only: next_best_move_def Let_def assms(1) option.case simp_thms if_True loop
        sum.case last_item_def sne if_False i(2))
  also have "?mp ! i = (fst (entries ! i), the (snd (entries ! i) ?key))"
    using i(1) by (rule nth_map)
  finally have res: "next_best_move database board ''win'' = Inr (fst (entries ! i))"
    by (simp only: fst_conv)
  have val: "win_probability board (snd (entries ! j)) = Some (snd (?mp ! j))"
    if j: "j < length entries" for j
  proof -
    from j have "entries ! j \<in> set entries" by simp
    with keys have "snd (entries ! j) ?key \<noteq> None" by blast
    then obtain v where v: "snd (entries ! j) ?key = Some v" by blast
    have "snd (?mp ! j) = v" by (simp only: nth_map [OF j] snd_conv v option.sel)
    then show ?thesis by (simp only: win_probability_key v)
  qed
  show ?thesis
  proof (intro exI conjI allI impI)
    show "i < length entries" by (rule i(1))
    show "next_best_move database board ''win'' = Inr (fst (entries ! i))" by (rule res)
    show "win_probability board (snd (entries ! i)) = Some (snd (?mp ! i))"
      by (rule val [OF i(1)])
  next
    fix j assume j: "j < length entries"
    show "win_probability board (snd (entries ! j)) = Some (snd (?mp ! j))"
      by (rule val [OF j])
    show "snd (?mp ! j) \<le> snd (?mp ! i)" using i(3) j by blast
    show "snd (?mp ! j) < snd (?mp ! i)" if "i < j" using i(4) j that by blast
  qed
qed

lemma probs_of_win_probability: "win_probability board (probs_of t) \<noteq> None"
  by (cases t) (simp add: win_probability_def)

lemma probs_corner:
  "probs_of (14652, 7896, 5184) =
     [''p1_wins'' \<mapsto> 52834 / 100000, ''p2_wins'' \<mapsto> 28473 / 100000,
      ''draw'' \<mapsto> 18693 / 100000]"
proof -
  have "round5 (to_double 14652 27732) = 52834 / 100000"
    by (rule round5_eval [where u = 1 and r = 4758888052807768 and p = 52834])
      (simp_all add: shift_up.simps nearest_def)
  moreover have "round5 (to_double 7896 27732) = 28473 / 100000"
    by (rule round5_eval [where u = 2 and r = 5129153708022131 and p = 28473])
      (simp_all add: shift_up.simps nearest_def)
  moreover have "round5 (to_double 5184 27732) = 18693 / 100000"
    by (rule round5_eval [where u = 3 and r = 6734937391688634 and p = 18693])
      (simp_all add: shift_up.simps nearest_def)
  moreover have "(14652::nat) + 7896 + 5184 = 27732" by simp
  ultimately show ?thesis by (simp only: probs_of.simps)
qed

lemma probs_edge:
  "probs_of (14232, 10176, 5184) =
     [''p1_wins'' \<mapsto> 48094 / 100000, ''p2_wins'' \<mapsto> 34388 / 100000,
      ''draw'' \<mapsto> 17518 / 100000]"
proof -
  have "round5 (to_double 14232 29592) = 48094 / 100000"
    by (rule round5_eval [where u = 2 and r = 8663859137163679 and p = 48094])
      (simp_all add: shift_up.simps nearest_def)
  moreover have "round5 (to_double 10176 29592) = 34388 / 100000"
    by (rule round5_eval [where u = 2 and r = 6194732334160877 and p = 34388])
      (simp_all add: shift_up.simps nearest_def)
  moreover have "round5 (to_double 5184 29592) = 17518 / 100000"
    by (rule round5_eval [where u = 3 and r = 6311614076314856 and p = 17518])
      (simp_all add: shift_up.simps nearest_def)
  moreover have "(14232::nat) + 10176 + 5184 = 29592" by simp
  ultimately show ?thesis by (simp only: probs_of.simps)
qed

lemma probs_center:
  "probs_of (15648, 5616, 4608) =
     [''p1_wins'' \<mapsto> 60482 / 100000, ''p2_wins'' \<mapsto> 21707 / 100000,
      ''draw'' \<mapsto> 17811 / 100000]"
proof -
  have "round5 (to_double 15648 25872) = 60482 / 100000"
    by (rule round5_eval [where u = 1 and r = 5447768009360971 and p = 60482])
      (simp_all add: shift_up.simps nearest_def)
  moreover have "round5 (to_double 5616 25872) = 21707 / 100000"
    by (rule round5_eval [where u = 3 and r = 7820722172947652 and p = 21707])
      (simp_all add: shift_up.simps nearest_def)
  moreover have "round5 (to_double 4608 25872) = 17811 / 100000"
    by (rule round5_eval [where u = 3 and r = 6417002808572432 and p = 17811])
      (simp_all add: shift_up.simps nearest_def)
  moreover have "(15648::nat) + 5616 + 4608 = 25872" by simp
  ultimately show ?thesis by (simp only: probs_of.simps)
qed

lemma moves_start:
  "moves ''000000000'' =
     [''100000000'', ''010000000'', ''001000000'', ''000100000'', ''000010000'',
      ''000001000'', ''000000100'', ''000000010'', ''000000001'']"
  by (simp add: moves_eval mark_def)

lemma not_finished_start: "\<not> finished ''000000000''"
  by (simp add: finished_def wins_eval)

lemma first_move_probs:
  assumes "m \<in> set (moves ''000000000'')"
  shows "probs_of (final_tally m) = probs_of (cnt 8 m)"
proof -
  from visited_closed [OF _ zeros_start start_visited not_finished_start assms]
  have v: "m \<in> visited 9 ''000000000''" by simp
  from zeros_moves [OF assms] have "zeros m = 8" by (simp add: zeros_start)
  with table_probs_cnt [OF v] show ?thesis by (simp only:)
qed

lemma table_start:
  "table ''000000000'' = Some
     [(''100000000'', probs_of (14652, 7896, 5184)),
      (''010000000'', probs_of (14232, 10176, 5184)),
      (''001000000'', probs_of (14652, 7896, 5184)),
      (''000100000'', probs_of (14232, 10176, 5184)),
      (''000010000'', probs_of (15648, 5616, 4608)),
      (''000001000'', probs_of (14232, 10176, 5184)),
      (''000000100'', probs_of (14652, 7896, 5184)),
      (''000000010'', probs_of (14232, 10176, 5184)),
      (''000000001'', probs_of (14652, 7896, 5184))]"
proof -
  have "map (\<lambda>m. (m, probs_of (final_tally m))) (moves ''000000000'') =
        map (\<lambda>m. (m, probs_of (cnt 8 m))) (moves ''000000000'')"
    by (intro map_cong refl) (simp only: first_move_probs)
  also have "\<dots> = [(''100000000'', probs_of (14652, 7896, 5184)),
      (''010000000'', probs_of (14232, 10176, 5184)),
      (''001000000'', probs_of (14652, 7896, 5184)),
      (''000100000'', probs_of (14232, 10176, 5184)),
      (''000010000'', probs_of (15648, 5616, 4608)),
      (''000001000'', probs_of (14232, 10176, 5184)),
      (''000000100'', probs_of (14652, 7896, 5184)),
      (''000000010'', probs_of (14232, 10176, 5184)),
      (''000000001'', probs_of (14652, 7896, 5184))]"
    by (simp only: moves_start list.map cnt_table)
  finally show ?thesis
    using start_visited not_finished_start by (simp only: table_def simp_thms if_True)
qed

lemma next_best_move_start: "next_best_move table ''000000000'' ''win'' = Inr ''000010000''"
  by (simp add: next_best_move_def table_start probs_corner probs_edge probs_center
      current_player_def last_item_def del: probs_of.simps)

lemma table_entries:
  assumes "table board = Some entries"
  shows "board \<in> visited 9 ''000000000''" "\<not> finished board"
    "entries = map (\<lambda>m. (m, probs_of (final_tally m))) (moves board)"
  using assms by (simp_all add: table_def split: if_splits)

text \<open>
  Claim C4. On a key of the built table whose dictionary of moves is not empty,
  \<^verbatim>\<open>next_best_move\<close> returns one of the recorded moves, which are the moves
  \<^verbatim>\<open>get_possible_moves\<close> returns (in that order, by ascending cell) with the
  probabilities that \<^verbatim>\<open>outcome_probabilities\<close> holds for them. No recorded move
  has a higher probability of a win of the player to move than the chosen one,
  and every move recorded after the chosen one has a lower one: among equal
  maxima the last is taken. From the empty board the choice is the centre.
\<close>

theorem next_best_move_maximal:
  "\<exists>op db. outcome_probabilities = Inr op \<and> ai_player_database = Inr db \<and>
     (\<forall>board entries. db board = Some entries \<and> entries \<noteq> [] \<longrightarrow>
        get_possible_moves board = Inr (map fst entries) \<and>
        (\<forall>e \<in> set entries. op (fst e) = Some (snd e)) \<and>
        (\<exists>i < length entries. \<exists>best.
           next_best_move db board ''win'' = Inr (fst (entries ! i)) \<and>
           win_probability board (snd (entries ! i)) = Some best \<and>
           (\<forall>j < length entries. \<exists>p.
              win_probability board (snd (entries ! j)) = Some p \<and>
              p \<le> best \<and> (i < j \<longrightarrow> p < best)))) \<and>
     next_best_move db ''000000000'' ''win'' = Inr ''000010000''"
proof -
  have each: "get_possible_moves board = Inr (map fst entries) \<and>
        (\<forall>e \<in> set entries. table_probs (fst e) = Some (snd e)) \<and>
        (\<exists>i < length entries. \<exists>best.
           next_best_move table board ''win'' = Inr (fst (entries ! i)) \<and>
           win_probability board (snd (entries ! i)) = Some best \<and>
           (\<forall>j < length entries. \<exists>p.
              win_probability board (snd (entries ! j)) = Some p \<and>
              p \<le> best \<and> (i < j \<longrightarrow> p < best)))"
    if k: "table board = Some entries \<and> entries \<noteq> []" for board entries
  proof -
    from k have t: "table board = Some entries" and ne: "entries \<noteq> []" by simp_all
    note e = table_entries [OF t]
    from e(1) have len: "length board = 9" by (rule visited_length)
    have fsts: "map fst entries = moves board" unfolding e(3) by (simp add: comp_def)
    have a: "get_possible_moves board = Inr (map fst entries)"
      using len by (simp only: fsts) (simp add: get_possible_moves_moves)
    have b: "\<forall>e \<in> set entries. table_probs (fst e) = Some (snd e)"
    proof
      fix x assume "x \<in> set entries"
      then obtain m where m: "m \<in> set (moves board)" "x = (m, probs_of (final_tally m))"
        unfolding e(3) by auto
      from visited_closed [OF _ zeros_start e(1) e(2) m(1)] have "m \<in> visited 9 ''000000000''"
        by simp
      then show "table_probs (fst x) = Some (snd x)" by (simp add: m(2) table_probs_def)
    qed
    have "\<forall>e \<in> set entries. win_probability board (snd e) \<noteq> None"
    proof
      fix x assume "x \<in> set entries"
      then obtain m where "x = (m, probs_of (final_tally m))" unfolding e(3) by auto
      then show "win_probability board (snd x) \<noteq> None"
        by (simp only: snd_conv probs_of_win_probability not_False_eq_True)
    qed
    from next_best_move_choice [of table board entries, OF t ne this] a b show ?thesis
      by (intro conjI)
  qed
  show ?thesis
    apply (rule exI [of _ table_probs])
    apply (rule exI [of _ table])
    apply (intro conjI)
       apply (rule outcome_probabilities_ok)
      apply (rule ai_player_database_ok)
     apply (intro allI impI)
     apply (rule each)
     apply assumption
    apply (rule next_best_move_start)
    done
qed

theorem next_best_move_maximal_witness:
  "\<exists>db entries i. ai_player_database = Inr db \<and>
     db ''000000000'' = Some entries \<and> entries \<noteq> [] \<and>
     get_possible_moves ''000000000'' = Inr (map fst entries) \<and>
     i < length entries \<and>
     next_best_move db ''000000000'' ''win'' = Inr (fst (entries ! i)) \<and>
     fst (entries ! i) = ''000010000''"
proof -
  from next_best_move_maximal obtain op db where r: "ai_player_database = Inr db"
    and all: "\<forall>board entries. db board = Some entries \<and> entries \<noteq> [] \<longrightarrow>
        get_possible_moves board = Inr (map fst entries) \<and>
        (\<forall>e \<in> set entries. op (fst e) = Some (snd e)) \<and>
        (\<exists>i < length entries. \<exists>best.
           next_best_move db board ''win'' = Inr (fst (entries ! i)) \<and>
           win_probability board (snd (entries ! i)) = Some best \<and>
           (\<forall>j < length entries. \<exists>p.
              win_probability board (snd (entries ! j)) = Some p \<and>
              p \<le> best \<and> (i < j \<longrightarrow> p < best)))"
    and start: "next_best_move db ''000000000'' ''win'' = Inr ''000010000''"
    by blast
  from ai_player_database_ok [symmetric] r
  have "(Inr table :: error + (string \<rightharpoonup> moves_data)) = Inr db" by (rule trans)
  then have db: "db = table" by (simp only: sum.inject)
  obtain entries where entries: "db ''000000000'' = Some entries" "entries \<noteq> []"
    unfolding db table_start by blast
  from all [rule_format, OF conjI [OF entries]] obtain i where
    a: "get_possible_moves ''000000000'' = Inr (map fst entries)"
    and i: "i < length entries"
      "next_best_move db ''000000000'' ''win'' = Inr (fst (entries ! i))"
    by blast
  from i(2) [symmetric] start have "(Inr (fst (entries ! i)) :: error + string) = Inr ''000010000''"
    by (rule trans)
  then have c: "fst (entries ! i) = ''000010000''" by (simp only: sum.inject)
  show ?thesis
    apply (rule exI [of _ db])
    apply (rule exI [of _ entries])
    apply (rule exI [of _ i])
    apply (intro conjI)
          apply (rule r)
         apply (rule entries(1))
        apply (rule entries(2))
       apply (rule a)
      apply (rule i(1))
     apply (rule i(2))
    apply (rule c)
    done
qed

end
